theory Spec2Isabelle
  imports Complex_Main "HOL-Library.Word"
begin

section \<open>Common types\<close>

text \<open>
  \<^verbatim>\<open>Types.h\<close>: a \<open>Node\<close> is a vertex id. Every vertex the engines store is an index
  into vectors of length \<open>numNodes_\<close>, so vertices are natural numbers here; the sentinel
  \<open>INVALID_NODE = -1\<close> only occurs as a return value, and the functions that can return
  it have an \<open>int\<close> result. A \<open>NodeSet\<close> (\<open>std::unordered_set<Node>\<close>) is a
  duplicate-free list; the list order stands for the iteration order of the container.
  The language leaves that order open; the library the program is built with links a
  new key in front of the keys already present and keeps the order of the others when
  a key is erased, and the list does the same: \<open>insert\<close> puts a new key at the head,
  \<open>erase\<close> takes the key out.
\<close>

type_synonym Node = nat
type_synonym Age = int
type_synonym ComponentIndex = int
type_synonym NodeSet = "Node list"
type_synonym Solution = NodeSet

definition INVALID_NODE :: int where
  "INVALID_NODE = -1"

definition NodeSet_insert :: "Node \<Rightarrow> NodeSet \<Rightarrow> NodeSet" where
  "NodeSet_insert x s = (if x \<in> set s then s else x # s)"

definition NodeSet_erase :: "Node \<Rightarrow> NodeSet \<Rightarrow> NodeSet" where
  "NodeSet_erase x s = removeAll x s"

record Component =
  size' :: nat
  nodes :: "Node list"

text \<open>
  Exceptions of the source are values. \<open>undefined_behaviour\<close> marks an operation that
  the source performs without any check although C++ leaves it undefined (a read outside
  a vector, a division by zero): no exception is thrown there, and the model stops
  instead of inventing a value.
\<close>

datatype error = runtime_error string | invalid_argument string | undefined_behaviour

section \<open>RandomNumberGenerator\<close>

text \<open>
  \<^verbatim>\<open>RandomNumberGenerator.h\<close> wraps \<open>std::mt19937\<close>. The engine itself is library
  code; the model keeps the stream of values it will deliver (\<open>outputs\<close>, fixed by the
  seed) and the number of draws made so far. Every theorem below holds for every stream.
\<close>

record RandomNumberGenerator =
  outputs :: "nat \<Rightarrow> nat"
  position :: nat

definition generateIndex :: "nat \<Rightarrow> RandomNumberGenerator \<Rightarrow> error + (nat \<times> RandomNumberGenerator)" where
  "generateIndex maxv r =
     (if maxv \<le> 0 then Inl (invalid_argument ''max must be positive'')
      else Inr (outputs r (position r) mod maxv, r\<lparr>position := position r + 1\<rparr>))"

definition generateProbability :: "RandomNumberGenerator \<Rightarrow> real \<times> RandomNumberGenerator" where
  "generateProbability r =
     (real (outputs r (position r) mod 2 ^ 53) / 2 ^ 53, r\<lparr>position := position r + 1\<rparr>)"

definition generateBool :: "real \<Rightarrow> RandomNumberGenerator \<Rightarrow> bool \<times> RandomNumberGenerator" where
  "generateBool p r = (let (x, r') = generateProbability r in (x < p, r'))"

section \<open>CNP_Graph: the connected-component engine\<close>

text \<open>
  The fields of \<^verbatim>\<open>CNP_Graph.h\<close> that the operations below read or write.
  \<open>connectedPairs_\<close> is a C++ \<open>int\<close> updated with \<open>size_t\<close> operands, that is
  modulo \<open>2^32\<close>: a 32-bit word, read as a signed number by \<open>getObjectiveValue\<close>.
  The scratch buffers (\<open>dfsVisitEpoch_\<close>, \<open>dfsStack_\<close>, \<open>componentVisited_\<close>) are reset
  at the start of each use and are local values of the functions that use them.
\<close>

record CNP_Graph =
  numNodes :: nat
  originalNodesSet :: NodeSet
  nodeAge :: "Age list"
  currentAdjList :: "NodeSet list"
  originalAdjList :: "NodeSet list"
  numToRemove :: int
  nodeToComponentIndex :: "ComponentIndex list"
  connectedComponents :: "Component list"
  connectedPairs :: "32 word"
  removedNodes :: NodeSet
  rng :: RandomNumberGenerator

definition isNodeRemoved :: "CNP_Graph \<Rightarrow> Node \<Rightarrow> bool" where
  "isNodeRemoved g node = (node \<in> set (removedNodes g))"

definition getObjectiveValue :: "CNP_Graph \<Rightarrow> int" where
  "getObjectiveValue g = sint (connectedPairs g)"

definition setNodeAge :: "Node \<Rightarrow> Age \<Rightarrow> CNP_Graph \<Rightarrow> CNP_Graph" where
  "setNodeAge node age g = g\<lparr>nodeAge := (nodeAge g)[node := age]\<rparr>"

text \<open>The pair count \<open>(size * (size - 1)) / 2\<close> of a component, in \<open>size_t\<close> arithmetic.\<close>

definition pairsOf :: "nat \<Rightarrow> nat" where
  "pairsOf s = (s * (s - 1)) div 2"

subsection \<open>dfsFindComponent\<close>

text \<open>
  The adjacency row of a vertex; a row outside the vector is empty (the source would
  read out of bounds there, all statements below are about vertices below \<open>numNodes_\<close>).
\<close>

definition adjRow :: "NodeSet list \<Rightarrow> Node \<Rightarrow> NodeSet" where
  "adjRow adj v = (if v < length adj then adj ! v else [])"

definition nodes_of :: "NodeSet list \<Rightarrow> Node set" where
  "nodes_of adj = (\<Union>row \<in> set adj. set row)"

text \<open>
  The loop of \<open>dfsFindComponent\<close>. The stack is a list whose head is the back of
  \<open>dfsStack_\<close>; a vertex carries the current epoch exactly when it has been appended to
  the component under construction, so \<open>cnodes\<close> is both the result and the visited mark.
\<close>

function dfs_loop :: "NodeSet list \<Rightarrow> NodeSet \<Rightarrow> Node list \<Rightarrow> Node list \<Rightarrow> Node list" where
  "dfs_loop adj removed [] cnodes = cnodes"
| "dfs_loop adj removed (node # stack) cnodes =
     (if node \<in> set cnodes \<or> node \<in> set removed then dfs_loop adj removed stack cnodes
      else dfs_loop adj removed
             (rev (filter (\<lambda>neighbor. neighbor \<notin> set (cnodes @ [node]) \<and> neighbor \<notin> set removed)
                     (adjRow adj node)) @ stack)
             (cnodes @ [node]))"
  by pat_completeness auto

lemma finite_nodes_of: "finite (nodes_of adj)"
  by (simp add: nodes_of_def)

lemma adjRow_subset: "set (adjRow adj v) \<subseteq> nodes_of adj"
  by (auto simp: adjRow_def nodes_of_def intro!: bexI[of _ "adj ! v"])

termination dfs_loop
proof (relation "inv_image (less_than <*lex*> less_than)
          (\<lambda>(adj, removed, stack, cnodes). (card ((nodes_of adj \<union> set stack) - set cnodes), length stack))",
       goal_cases)
  case 1
  show ?case by (intro wf_inv_image wf_lex_prod wf_less_than)
next
  case (2 adj removed node stack cnodes)
  have "(nodes_of adj \<union> set stack) - set cnodes \<subseteq> (nodes_of adj \<union> set (node # stack)) - set cnodes"
    by auto
  then have "card ((nodes_of adj \<union> set stack) - set cnodes)
               \<le> card ((nodes_of adj \<union> set (node # stack)) - set cnodes)"
    by (intro card_mono) (auto simp: finite_nodes_of)
  then show ?case by auto
next
  case (3 adj removed node stack cnodes)
  let ?push = "rev (filter (\<lambda>neighbor. neighbor \<notin> set (cnodes @ [node]) \<and> neighbor \<notin> set removed)
                     (adjRow adj node))"
  have sub: "(nodes_of adj \<union> set (?push @ stack)) - set (cnodes @ [node])
               \<subset> (nodes_of adj \<union> set (node # stack)) - set cnodes"
    using 3 adjRow_subset[of adj node] by auto
  have "finite ((nodes_of adj \<union> set (node # stack)) - set cnodes)"
    by (auto simp: finite_nodes_of)
  then have "card ((nodes_of adj \<union> set (?push @ stack)) - set (cnodes @ [node]))
               < card ((nodes_of adj \<union> set (node # stack)) - set cnodes)"
    using sub by (rule psubset_card_mono)
  then show ?case by simp
qed

definition dfsFindComponent :: "CNP_Graph \<Rightarrow> Node \<Rightarrow> Component" where
  "dfsFindComponent g startNode =
     (let ns = dfs_loop (currentAdjList g) (removedNodes g) [startNode] []
      in \<lparr>size' = length ns, nodes = ns\<rparr>)"


subsection \<open>Construction and full rebuild\<close>

text \<open>
  The constructor copies its arguments and sizes the vectors. It does not compute the
  components, and it leaves \<open>connectedPairs_\<close> without a value: \<open>pairs0\<close> is whatever
  the member holds. \<open>stream\<close> is the output stream of the seeded generator.
\<close>

definition CNP_Graph_new :: "NodeSet \<Rightarrow> NodeSet list \<Rightarrow> int \<Rightarrow> (nat \<Rightarrow> nat) \<Rightarrow> 32 word \<Rightarrow> CNP_Graph" where
  "CNP_Graph_new ns adjList budget stream pairs0 =
     \<lparr>numNodes = length ns,
      originalNodesSet = ns,
      nodeAge = replicate (length ns) 0,
      currentAdjList = adjList,
      originalAdjList = adjList,
      numToRemove = budget,
      nodeToComponentIndex = replicate (length ns) (-1),
      connectedComponents = [],
      connectedPairs = pairs0,
      removedNodes = [],
      rng = \<lparr>outputs = stream, position = 0\<rparr>\<rparr>"

text \<open>\<open>for (Node n : c.nodes) nodeToComponentIndex_[n] = idx\<close>\<close>

definition assignIndex :: "Node list \<Rightarrow> ComponentIndex \<Rightarrow> ComponentIndex list \<Rightarrow> ComponentIndex list" where
  "assignIndex ns idx m = fold (\<lambda>n m. m[n := idx]) ns m"

text \<open>
  One iteration of the loop of \<open>initializeComponentsAndMapping\<close> over
  \<open>originalNodesSet_\<close>; the state is the graph, the marks of \<open>componentVisited_\<close> and
  the running \<open>componentIndex\<close>.
\<close>

definition initComponentOf :: "Node \<Rightarrow> CNP_Graph \<times> Node set \<times> ComponentIndex
      \<Rightarrow> CNP_Graph \<times> Node set \<times> ComponentIndex" where
  "initComponentOf node = (\<lambda>(g, componentVisited, componentIndex).
     if node \<notin> componentVisited \<and> \<not> isNodeRemoved g node then
       (let component = dfsFindComponent g node in
        if nodes component \<noteq> [] then
          (g\<lparr>connectedComponents := connectedComponents g @ [component],
             nodeToComponentIndex := assignIndex (nodes component) componentIndex (nodeToComponentIndex g),
             connectedPairs := connectedPairs g + of_nat (pairsOf (size' component))\<rparr>,
           componentVisited \<union> set (nodes component),
           componentIndex + 1)
        else (g, componentVisited, componentIndex))
     else (g, componentVisited, componentIndex))"

definition initializeComponentsAndMapping :: "CNP_Graph \<Rightarrow> CNP_Graph" where
  "initializeComponentsAndMapping g =
     fst (fold initComponentOf (originalNodesSet g)
            (g\<lparr>nodeToComponentIndex := replicate (length (nodeToComponentIndex g)) (-1),
               connectedComponents := [],
               connectedPairs := 0\<rparr>, {}, 0))"

text \<open>The elision loop of \<open>updateGraphByRemovedNodes\<close> for one removed vertex.\<close>

definition elideFrom :: "NodeSet list \<Rightarrow> Node \<Rightarrow> NodeSet list \<Rightarrow> NodeSet list" where
  "elideFrom orig node cur =
     (fold (\<lambda>neighbor c. c[neighbor := NodeSet_erase node (c ! neighbor)]) (adjRow orig node) cur)
       [node := []]"

definition updateGraphByRemovedNodes :: "NodeSet \<Rightarrow> CNP_Graph \<Rightarrow> CNP_Graph" where
  "updateGraphByRemovedNodes nodesToRemove g =
     initializeComponentsAndMapping
       (g\<lparr>removedNodes := fold NodeSet_insert nodesToRemove [],
          currentAdjList := fold (elideFrom (originalAdjList g)) nodesToRemove (originalAdjList g)\<rparr>)"

subsection \<open>addNode\<close>

text \<open>The first loop of \<open>addNode\<close>: restore the edges to surviving neighbours and
  remember the component of the first one.\<close>

definition restoreEdge :: "Node \<Rightarrow> Node \<Rightarrow> CNP_Graph \<times> ComponentIndex \<Rightarrow> CNP_Graph \<times> ComponentIndex" where
  "restoreEdge nodeToAdd neighbor = (\<lambda>(g, componentIndex).
     if nodeToComponentIndex g ! neighbor \<noteq> -1 then
       (let a1 = (currentAdjList g)[nodeToAdd := NodeSet_insert neighbor (currentAdjList g ! nodeToAdd)];
            a2 = a1[neighbor := NodeSet_insert nodeToAdd (a1 ! neighbor)]
        in (g\<lparr>currentAdjList := a2\<rparr>,
            if componentIndex = -1 then nodeToComponentIndex g ! neighbor else componentIndex))
     else (g, componentIndex))"

text \<open>\<open>componentsIndexesToMerge\<close> is a \<open>std::set\<close>: sorted, without duplicates.\<close>

definition componentsIndexesToMerge :: "ComponentIndex list \<Rightarrow> Node list \<Rightarrow> ComponentIndex list" where
  "componentsIndexesToMerge ntc ns =
     sort (remdups (map (\<lambda>node. ntc ! node) (filter (\<lambda>node. ntc ! node \<noteq> -1) ns)))"

definition indexMapping :: "nat \<Rightarrow> ComponentIndex list \<Rightarrow> int list" where
  "indexMapping n toMerge =
     fold (\<lambda>idx m. fold (\<lambda>i m. m[i := m ! i - 1]) [nat (idx + 1) ..< length m] m)
          toMerge (map int [0 ..< n])"

definition remapIndexes :: "int list \<Rightarrow> NodeSet \<Rightarrow> ComponentIndex list \<Rightarrow> ComponentIndex list" where
  "remapIndexes mapping ns ntc =
     fold (\<lambda>node m. if m ! node \<noteq> -1 then m[node := mapping ! nat (m ! node)] else m) ns ntc"

definition eraseAt :: "nat \<Rightarrow> 'a list \<Rightarrow> 'a list" where
  "eraseAt i xs = take i xs @ drop (Suc i) xs"

definition eraseMerged :: "ComponentIndex list \<Rightarrow> Component list \<times> 32 word \<Rightarrow> Component list \<times> 32 word" where
  "eraseMerged toMerge =
     fold (\<lambda>it (comps, pairs).
             (eraseAt (nat it) comps, pairs - of_nat (pairsOf (size' (comps ! nat it)))))
          (rev toMerge)"

definition addNode :: "Node \<Rightarrow> CNP_Graph \<Rightarrow> CNP_Graph" where
  "addNode nodeToAdd g0 =
     (let (g, componentIndex) =
            fold (restoreEdge nodeToAdd) (adjRow (originalAdjList g0) nodeToAdd)
                 (g0\<lparr>removedNodes := NodeSet_erase nodeToAdd (removedNodes g0)\<rparr>, -1)
      in if componentIndex \<noteq> -1 then
           (let ci = nat componentIndex;
                host = connectedComponents g ! ci;
                g1 = g\<lparr>connectedComponents := (connectedComponents g)
                          [ci := \<lparr>size' = size' host + 1, nodes = nodes host @ [nodeToAdd]\<rparr>],
                       nodeToComponentIndex := (nodeToComponentIndex g)[nodeToAdd := componentIndex]\<rparr>;
                newComponent = dfsFindComponent g1 nodeToAdd
            in if size' newComponent > size' (connectedComponents g1 ! ci) then
                 (let comps1 = (connectedComponents g1)
                         [ci := (connectedComponents g1 ! ci)\<lparr>size' := size' (connectedComponents g1 ! ci) - 1\<rparr>];
                      toMerge = componentsIndexesToMerge (nodeToComponentIndex g1) (nodes newComponent);
                      mapping = indexMapping (length comps1) toMerge;
                      ntc1 = remapIndexes mapping (originalNodesSet g1) (nodeToComponentIndex g1);
                      (comps2, pairs2) = eraseMerged toMerge (comps1, connectedPairs g1);
                      comps3 = comps2 @ [newComponent]
                  in g1\<lparr>connectedComponents := comps3,
                        connectedPairs := pairs2 + of_nat (pairsOf (size' newComponent)),
                        nodeToComponentIndex := assignIndex (nodes newComponent) (int (length comps3) - 1) ntc1\<rparr>)
               else if size' newComponent = size' (connectedComponents g1 ! ci) then
                 g1\<lparr>connectedPairs := connectedPairs g1 + of_nat (size' (connectedComponents g1 ! ci) - 1)\<rparr>
               else g1)
         else
           g\<lparr>connectedComponents := connectedComponents g @ [\<lparr>size' = 1, nodes = [nodeToAdd]\<rparr>],
             nodeToComponentIndex := (nodeToComponentIndex g)
                [nodeToAdd := int (length (connectedComponents g @ [\<lparr>size' = 1, nodes = [nodeToAdd]\<rparr>])) - 1]\<rparr>)"

subsection \<open>removeNode\<close>

text \<open>Lines 256 to 265: mark the vertex and elide its edges from the current adjacency.\<close>

definition detachNode :: "Node \<Rightarrow> CNP_Graph \<Rightarrow> CNP_Graph" where
  "detachNode nodeToRemove g =
     g\<lparr>removedNodes := NodeSet_insert nodeToRemove (removedNodes g),
       nodeToComponentIndex := (nodeToComponentIndex g)[nodeToRemove := -1],
       currentAdjList :=
         (fold (\<lambda>neighbor c. c[neighbor := NodeSet_erase nodeToRemove (c ! neighbor)])
               (adjRow (currentAdjList g) nodeToRemove) (currentAdjList g))
           [nodeToRemove := []]\<rparr>"

text \<open>The singleton case: shift the indices of the later components down.\<close>

definition shiftDown :: "nat \<Rightarrow> Component list \<Rightarrow> ComponentIndex list \<Rightarrow> ComponentIndex list" where
  "shiftDown ci comps ntc =
     fold (\<lambda>i m. fold (\<lambda>node m. m[node := m ! node - 1]) (nodes (comps ! i)) m)
          [ci + 1 ..< length comps] ntc"

text \<open>One iteration of the loop that discovers the split components; the state is the
  graph and the marks of the local \<open>isVisited\<close>.\<close>

definition splitStep :: "Node \<Rightarrow> Node \<Rightarrow> CNP_Graph \<times> Node set \<Rightarrow> CNP_Graph \<times> Node set" where
  "splitStep nodeToRemove node = (\<lambda>(g, isVisited).
     if node \<in> isVisited \<or> node = nodeToRemove then (g, isVisited)
     else
       (let splitComponent = dfsFindComponent g node;
            newIndex = int (length (connectedComponents g))
        in (g\<lparr>connectedComponents := connectedComponents g @ [splitComponent],
              connectedPairs := connectedPairs g + of_nat (pairsOf (size' splitComponent)),
              nodeToComponentIndex := assignIndex (nodes splitComponent) newIndex (nodeToComponentIndex g)\<rparr>,
            isVisited \<union> set (nodes splitComponent))))"

definition removeNode :: "Node \<Rightarrow> CNP_Graph \<Rightarrow> error + CNP_Graph" where
  "removeNode nodeToRemove g0 =
     (let componentIndex = nodeToComponentIndex g0 ! nodeToRemove in
      if componentIndex < 0 \<or> int (length (connectedComponents g0)) \<le> componentIndex then Inl undefined_behaviour
      else
        (let ci = nat componentIndex;
             originalComponent = connectedComponents g0 ! ci;
             g = detachNode nodeToRemove g0
         in if size' originalComponent = 1 then
              Inr (g\<lparr>nodeToComponentIndex := shiftDown ci (connectedComponents g) (nodeToComponentIndex g),
                     connectedComponents := eraseAt ci (connectedComponents g)\<rparr>)
            else if size' originalComponent > 1 then
              (let g1 = g\<lparr>connectedComponents := (connectedComponents g)
                            [ci := \<lparr>size' = size' (connectedComponents g ! ci) - 1,
                                    nodes = removeAll nodeToRemove (nodes (connectedComponents g ! ci))\<rparr>]\<rparr>
               in case find (\<lambda>node. node \<noteq> nodeToRemove) (nodes originalComponent) of
                    None \<Rightarrow> Inl undefined_behaviour
                  | Some startNode \<Rightarrow>
                      (let newComponent = dfsFindComponent g1 startNode in
                       if size' newComponent < size' (connectedComponents g1 ! ci) then
                         (let s = size' (connectedComponents g1 ! ci);
                              g2 = g1\<lparr>connectedPairs := connectedPairs g1 - of_nat ((s * (s + 1)) div 2)
                                                          + of_nat (pairsOf (size' newComponent)),
                                      connectedComponents := (connectedComponents g1)[ci := newComponent],
                                      nodeToComponentIndex :=
                                        assignIndex (nodes newComponent) componentIndex (nodeToComponentIndex g1)\<rparr>
                          in Inr (fst (fold (splitStep nodeToRemove) (nodes originalComponent)
                                         (g2, set (nodes newComponent)))))
                       else
                         Inr (g1\<lparr>connectedPairs := connectedPairs g1 - of_nat (size' newComponent)\<rparr>)))
            else Inr g))"


subsection \<open>Selecting a component\<close>

text \<open>A draw from the engine's own generator (\<open>rng_\<close> is \<open>mutable\<close>: the
  \<open>const\<close> selection functions advance it).\<close>

definition drawIndex :: "nat \<Rightarrow> CNP_Graph \<Rightarrow> error + (nat \<times> CNP_Graph)" where
  "drawIndex m g =
     (case generateIndex m (rng g) of
        Inl e \<Rightarrow> Inl e
      | Inr (i, r) \<Rightarrow> Inr (i, g\<lparr>rng := r\<rparr>))"

text \<open>The fallback of both selection functions: the first component of maximum size.\<close>

definition largestComponent :: "Component list \<Rightarrow> nat \<times> nat" where
  "largestComponent comps =
     fold (\<lambda>i (fallbackIndex, fallbackSize).
             if size' (comps ! i) > fallbackSize then (i, size' (comps ! i))
             else (fallbackIndex, fallbackSize))
          [0 ..< length comps] (0, 0)"

definition fallbackComponent :: "CNP_Graph \<Rightarrow> error + (ComponentIndex \<times> CNP_Graph)" where
  "fallbackComponent g =
     (let (fallbackIndex, fallbackSize) = largestComponent (connectedComponents g) in
      if fallbackSize = 0 then Inl (runtime_error ''no components available for selection'')
      else Inr (int fallbackIndex, g))"

text \<open>The scan of \<open>selectRemovedLargerComponent\<close>: the candidates with their sizes,
  the total, and the largest and second largest candidate.\<close>

record LargeScan =
  largeComponents :: "nat list"
  componentSizes :: "nat list"
  totalNodesInBigComponents :: nat
  maxSize :: nat
  maxIndex :: nat
  secondMaxSize :: nat
  secondMaxIndex :: nat

definition scanLarge :: "Component list \<Rightarrow> nat \<Rightarrow> LargeScan" where
  "scanLarge comps avgComponentSize =
     fold (\<lambda>i sc.
             let currentSize = size' (comps ! i) in
             if currentSize > avgComponentSize then
               (let sc1 = sc\<lparr>largeComponents := largeComponents sc @ [i],
                              componentSizes := componentSizes sc @ [currentSize],
                              totalNodesInBigComponents := totalNodesInBigComponents sc + currentSize\<rparr>
                in if currentSize > maxSize sc1 then
                     sc1\<lparr>secondMaxSize := maxSize sc1, secondMaxIndex := maxIndex sc1,
                         maxSize := currentSize, maxIndex := i\<rparr>
                   else if currentSize > secondMaxSize sc1 then
                     sc1\<lparr>secondMaxSize := currentSize, secondMaxIndex := i\<rparr>
                   else sc1)
             else sc)
          [0 ..< length comps]
          \<lparr>largeComponents = [], componentSizes = [], totalNodesInBigComponents = 0,
           maxSize = 0, maxIndex = 0, secondMaxSize = 0, secondMaxIndex = 0\<rparr>"

text \<open>The size-weighted roulette: the first candidate whose running sum exceeds \<open>index\<close>.\<close>

fun roulette :: "nat \<Rightarrow> nat \<Rightarrow> (nat \<times> nat) list \<Rightarrow> nat option" where
  "roulette index sumv [] = None"
| "roulette index sumv ((c, sz) # rest) =
     (if index < sumv + sz then Some c else roulette index (sumv + sz) rest)"

text \<open>
  \<open>selectRemovedLargerComponent\<close>. The average is computed in \<open>float\<close> and rounded
  with \<open>std::round\<close>; the model rounds the exact quotient the same way (half up).
\<close>

definition selectRemovedLargerComponent :: "CNP_Graph \<Rightarrow> error + (ComponentIndex \<times> CNP_Graph)" where
  "selectRemovedLargerComponent g =
     (let totalSize = numNodes g - length (removedNodes g);
          numComponents = length (connectedComponents g);
          avgComponentSize = max 2 (nat (round (real totalSize / real numComponents)));
          sc = scanLarge (connectedComponents g) avgComponentSize
      in if largeComponents sc = [] then fallbackComponent g
         else if length (largeComponents sc) = 1 then
           (let (b, r) = generateBool (1 / 2) (rng g) in
            Inr (if b then int (secondMaxIndex sc) else int (largeComponents sc ! 0), g\<lparr>rng := r\<rparr>))
         else
           (case drawIndex (totalNodesInBigComponents sc) g of
              Inl e \<Rightarrow> Inl e
            | Inr (index, g1) \<Rightarrow>
                (case roulette index 0 (zip (largeComponents sc) (componentSizes sc)) of
                   Some c \<Rightarrow> Inr (int c, g1)
                 | None \<Rightarrow> Inr (int (last (largeComponents sc)), g1))))"

definition minMaxSize :: "nat \<Rightarrow> Component list \<Rightarrow> int \<times> int" where
  "minMaxSize n comps =
     fold (\<lambda>c (minSize, maxSize).
             if size' c > 2 then (min minSize (int (size' c)), max maxSize (int (size' c)))
             else (minSize, maxSize))
          comps (int n, 0)"

definition selectRemovedComponent :: "CNP_Graph \<Rightarrow> error + (ComponentIndex \<times> CNP_Graph)" where
  "selectRemovedComponent g =
     (let numComponents = length (connectedComponents g) in
      if numComponents > 50 then selectRemovedLargerComponent g
      else
        (let (minSize, maxSize) = minMaxSize (numNodes g) (connectedComponents g) in
         case drawIndex 3 g of
           Inl e \<Rightarrow> Inl e
         | Inr (r, g1) \<Rightarrow>
             (let sizeThreshold = real_of_int maxSize - real_of_int (maxSize - minSize) * (1 / 2) - real r;
                  largeComponents = filter (\<lambda>i. real (size' (connectedComponents g1 ! i)) \<ge> sizeThreshold)
                                           [0 ..< numComponents]
              in if largeComponents = [] then fallbackComponent g1
                 else
                   (case drawIndex (length largeComponents) g1 of
                      Inl e \<Rightarrow> Inl e
                    | Inr (j, g2) \<Rightarrow> Inr (int (largeComponents ! j), g2)))))"

subsection \<open>Selecting a node of a component\<close>

text \<open>The tail of the three selection functions: one candidate is returned as it is,
  several are decided by a draw.\<close>

definition pickCandidate :: "Node list \<Rightarrow> CNP_Graph \<Rightarrow> error + (Node \<times> CNP_Graph)" where
  "pickCandidate candidateNodes g =
     (if length candidateNodes = 1 then Inr (candidateNodes ! 0, g)
      else
        (case drawIndex (length candidateNodes) g of
           Inl e \<Rightarrow> Inl e
         | Inr (j, g1) \<Rightarrow> Inr (candidateNodes ! j, g1)))"

definition randomSelectNodeFromComponent :: "ComponentIndex \<Rightarrow> CNP_Graph \<Rightarrow> error + (Node \<times> CNP_Graph)" where
  "randomSelectNodeFromComponent componentIndex g =
     (let component = connectedComponents g ! nat componentIndex in
      if nodes component = [] then Inl (runtime_error ''component is empty, can not select node'')
      else
        (case drawIndex (size' component) g of
           Inl e \<Rightarrow> Inl e
         | Inr (j, g1) \<Rightarrow> Inr (nodes component ! j, g1)))"

text \<open>The candidate loops keep the running optimum and the list of nodes that attain it.\<close>

definition keepMin :: "int \<Rightarrow> Node \<Rightarrow> int \<times> Node list \<Rightarrow> int \<times> Node list" where
  "keepMin value node = (\<lambda>(best, candidateNodes).
     if value < best then (value, [node])
     else if value = best then (best, candidateNodes @ [node])
     else (best, candidateNodes))"

definition ageSelectNodeFromComponent :: "ComponentIndex \<Rightarrow> CNP_Graph \<Rightarrow> error + (Node \<times> CNP_Graph)" where
  "ageSelectNodeFromComponent componentIndex g =
     (let component = connectedComponents g ! nat componentIndex in
      if size' component = 0 then Inl (runtime_error ''component is empty, can not select node'')
      else
        (let firstNode = nodes component ! 0;
             (minAge, candidateNodes) =
               fold (\<lambda>i. keepMin (nodeAge g ! (nodes component ! i)) (nodes component ! i))
                    [1 ..< size' component] (nodeAge g ! firstNode, [firstNode])
         in pickCandidate candidateNodes g))"

subsection \<open>Impact selection (Tarjan)\<close>

record Tarjan =
  dfn :: "int list"
  lowVec :: "int list"
  stSizeVec :: "int list"
  cutSizeVec :: "int list"
  impactVec :: "int list"
  flagVec :: "int list"
  isCutVec :: "bool list"
  timeStamp :: int

fun foldOption :: "('a \<Rightarrow> 'b \<Rightarrow> 'b option) \<Rightarrow> 'a list \<Rightarrow> 'b \<Rightarrow> 'b option" where
  "foldOption f [] s = Some s"
| "foldOption f (x # xs) s = (case f x s of None \<Rightarrow> None | Some s' \<Rightarrow> foldOption f xs s')"

text \<open>What \<open>tarjanInComponent\<close> does at \<open>nodeIdx\<close> after the recursive call for
  \<open>neighborIdx\<close> has returned (\<open>nodeRoot_\<close> is 1).\<close>

definition tarjanAfterChild :: "nat \<Rightarrow> nat \<Rightarrow> Tarjan \<Rightarrow> Tarjan" where
  "tarjanAfterChild nodeIdx neighborIdx t0 =
     (let t1 = t0\<lparr>lowVec := (lowVec t0)[nodeIdx := min (lowVec t0 ! nodeIdx) (lowVec t0 ! neighborIdx)]\<rparr>;
          t2 = (if dfn t1 ! nodeIdx < dfn t1 ! neighborIdx
                then t1\<lparr>stSizeVec := (stSizeVec t1)[nodeIdx := stSizeVec t1 ! nodeIdx + stSizeVec t1 ! neighborIdx]\<rparr>
                else t1)
      in if lowVec t2 ! neighborIdx \<ge> dfn t2 ! nodeIdx then
           (let t3 = t2\<lparr>flagVec := (flagVec t2)[nodeIdx := flagVec t2 ! nodeIdx + 1]\<rparr> in
            if nodeIdx \<noteq> 1 then
              t3\<lparr>isCutVec := (isCutVec t3)[nodeIdx := True],
                 cutSizeVec := (cutSizeVec t3)[nodeIdx := cutSizeVec t3 ! nodeIdx + stSizeVec t3 ! neighborIdx],
                 impactVec := (impactVec t3)[nodeIdx := impactVec t3 ! nodeIdx
                     + (stSizeVec t3 ! neighborIdx * (stSizeVec t3 ! neighborIdx - 1)) div 2]\<rparr>
            else if nodeIdx = 1 \<and> flagVec t3 ! nodeIdx > 1 then
              t3\<lparr>isCutVec := (isCutVec t3)[nodeIdx := True]\<rparr>
            else t3)
         else t2)"

text \<open>
  \<open>tarjanInComponent\<close> is recursive in the source. The first argument bounds the depth
  of the recursion; \<open>None\<close> means that the bound was reached.
\<close>

fun tarjanInComponent :: "nat \<Rightarrow> CNP_Graph \<Rightarrow> ComponentIndex \<Rightarrow> int list \<Rightarrow> nat \<Rightarrow> Tarjan \<Rightarrow> Tarjan option" where
  "tarjanInComponent 0 g compIndex nodeToIdx nodeIdx t = None"
| "tarjanInComponent (Suc depth) g compIndex nodeToIdx nodeIdx t =
     (let ts = timeStamp t + 1;
          t1 = t\<lparr>timeStamp := ts, dfn := (dfn t)[nodeIdx := ts], lowVec := (lowVec t)[nodeIdx := ts]\<rparr>;
          nodeId = nodes (connectedComponents g ! nat compIndex) ! (nodeIdx - 1)
      in foldOption
           (\<lambda>neighbor t.
              if \<not> isNodeRemoved g neighbor \<and> nodeToComponentIndex g ! neighbor = compIndex then
                (let neighborIdx = nat (nodeToIdx ! neighbor + 1) in
                 if dfn t ! neighborIdx = 0 then
                   (case tarjanInComponent depth g compIndex nodeToIdx neighborIdx t of
                      None \<Rightarrow> None
                    | Some t' \<Rightarrow> Some (tarjanAfterChild nodeIdx neighborIdx t'))
                 else Some (t\<lparr>lowVec := (lowVec t)[nodeIdx := min (lowVec t ! nodeIdx) (dfn t ! neighborIdx)]\<rparr>))
              else Some t)
           (adjRow (currentAdjList g) nodeId) t1)"

definition impactOf :: "Tarjan \<Rightarrow> nat \<Rightarrow> int" where
  "impactOf t i =
     (if isCutVec t ! i
      then impactVec t ! i + ((timeStamp t - cutSizeVec t ! i) * (timeStamp t - cutSizeVec t ! i - 1)) div 2
      else impactVec t ! i + ((timeStamp t - 1) * (timeStamp t - 2)) div 2)"

definition INT_MAX :: int where
  "INT_MAX = 2147483647"

definition impactSelectNodeFromComponent :: "ComponentIndex \<Rightarrow> CNP_Graph \<Rightarrow> error + (Node \<times> CNP_Graph)" where
  "impactSelectNodeFromComponent componentIndex g =
     (let component = connectedComponents g ! nat componentIndex in
      if size' component = 0 then Inl (runtime_error ''component is empty, can not select node'')
      else
        (let nodeToIdx = fold (\<lambda>i m. m[nodes component ! i := int i]) [0 ..< size' component]
                              (replicate (numNodes g) (-1));
             sz = size' component;
             t0 = \<lparr>dfn = replicate (sz + 1) 0, lowVec = replicate (sz + 1) 0,
                   stSizeVec = replicate (sz + 1) 1, cutSizeVec = replicate (sz + 1) 1,
                   impactVec = replicate (sz + 1) 0, flagVec = replicate (sz + 1) 0,
                   isCutVec = replicate (sz + 1) False, timeStamp = 0\<rparr>
         in case tarjanInComponent sz g componentIndex nodeToIdx 1 t0 of
              None \<Rightarrow> Inl undefined_behaviour
            | Some t \<Rightarrow>
                (let (minImpact, candidateNodes) =
                       fold (\<lambda>i. keepMin (impactOf t i) (nodes component ! (i - 1)))
                            [1 ..< sz + 1] (INT_MAX, [])
                 in pickCandidate candidateNodes g)))"

subsection \<open>Greedy reinsertion\<close>

text \<open>
  \<open>calculateConnectionGain\<close>: the sizes of the distinct components next to \<open>node\<close>
  are collected in \<open>componentSizes\<close>; the sums are C++ \<open>int\<close>s, assumed in range.
\<close>

definition calculateConnectionGain :: "CNP_Graph \<Rightarrow> Node \<Rightarrow> int" where
  "calculateConnectionGain g node =
     (let (componentSizes, totalSize) =
            fold (\<lambda>neighbor (componentSizes, totalSize).
                    if nodeToComponentIndex g ! neighbor \<noteq> -1 then
                      (let compIndex = nat (nodeToComponentIndex g ! neighbor) in
                       if componentSizes ! compIndex = 0 then
                         (componentSizes[compIndex := size' (connectedComponents g ! compIndex)],
                          totalSize + int (size' (connectedComponents g ! compIndex)))
                       else (componentSizes, totalSize))
                    else (componentSizes, totalSize))
                 (adjRow (originalAdjList g) node)
                 (replicate (length (connectedComponents g)) 0, 1);
          oldConnectionsSum =
            fold (\<lambda>sz acc. if int sz > 0 then acc + (int sz * (int sz - 1)) div 2 else acc) componentSizes 0;
          newConnections = (totalSize * (totalSize - 1)) div 2
      in newConnections - oldConnectionsSum)"

definition greedySelectNodeToAdd :: "CNP_Graph \<Rightarrow> error + (Node \<times> CNP_Graph)" where
  "greedySelectNodeToAdd g =
     (case removedNodes g of
        [] \<Rightarrow> Inl (runtime_error ''no removed nodes can be added'')
      | firstNode # rest \<Rightarrow>
          (let (minDelta, candidateNodes) =
                 fold (\<lambda>currentNode. keepMin (calculateConnectionGain g currentNode) currentNode)
                      rest (calculateConnectionGain g firstNode, [firstNode])
           in pickCandidate candidateNodes g))"

definition randomSelectNodeToRemove :: "CNP_Graph \<Rightarrow> error + (Node \<times> CNP_Graph)" where
  "randomSelectNodeToRemove g =
     (case drawIndex (length (connectedComponents g)) g of
        Inl e \<Rightarrow> Inl e
      | Inr (compIndex, g1) \<Rightarrow>
          (let selectedComponent = connectedComponents g1 ! compIndex in
           if size' selectedComponent = 0 \<or> nodes selectedComponent = []
           then Inl (runtime_error ''selected component is empty, can not select node'')
           else
             (case drawIndex (size' selectedComponent) g1 of
                Inl e \<Rightarrow> Inl e
              | Inr (j, g2) \<Rightarrow> Inr (nodes selectedComponent ! j, g2))))"

section \<open>DCNP_Graph: the K-hop engine\<close>

text \<open>
  The fields of \<^verbatim>\<open>DCNP_Graph.h\<close>, with the suffix \<open>D\<close> where the CNP engine has a field
  of the same name. \<open>intree_\<close> is the flattened \<open>n \<times> n\<close> table of \<open>uint8_t\<close> cells
  holding 0 or 1. The BFS scratch vectors are overwritten before they are read in every
  call of \<open>bfsKTree\<close> and are local values of the loop.
\<close>

record DCNP_Graph =
  numNodesD :: nat
  kHops :: int
  numToRemoveD :: int
  originalNodesSetD :: NodeSet
  nodeAgeD :: "Age list"
  currentAdjListD :: "NodeSet list"
  originalAdjListD :: "NodeSet list"
  intree :: "nat list"
  treeSize :: "int list"
  removedNodesD :: NodeSet
  rngD :: RandomNumberGenerator

definition treeIndex :: "nat \<Rightarrow> Node \<Rightarrow> Node \<Rightarrow> nat" where
  "treeIndex n row col = row * n + col"

definition isNodeRemovedD :: "DCNP_Graph \<Rightarrow> Node \<Rightarrow> bool" where
  "isNodeRemovedD g node = (node \<in> set (removedNodesD g))"

subsection \<open>bfsKTree\<close>

text \<open>The body of the neighbour loop: enqueue an unvisited surviving neighbour.\<close>

definition bfsVisit :: "NodeSet \<Rightarrow> int \<Rightarrow> Node \<Rightarrow> Node list \<times> Node set \<times> (Node \<Rightarrow> int)
      \<Rightarrow> Node list \<times> Node set \<times> (Node \<Rightarrow> int)" where
  "bfsVisit removed lv neighbor = (\<lambda>(queue, bfsVisited, bfsLevel).
     if neighbor \<in> set removed \<or> neighbor \<in> bfsVisited then (queue, bfsVisited, bfsLevel)
     else (queue @ [neighbor], insert neighbor bfsVisited, bfsLevel(neighbor := lv)))"

definition bfsExpand :: "NodeSet list \<Rightarrow> NodeSet \<Rightarrow> int \<Rightarrow> Node \<Rightarrow> Node list \<times> Node set \<times> (Node \<Rightarrow> int)
      \<Rightarrow> Node list \<times> Node set \<times> (Node \<Rightarrow> int)" where
  "bfsExpand adj removed K currentNode = (\<lambda>(queue, bfsVisited, bfsLevel).
     if bfsLevel currentNode < K
     then fold (bfsVisit removed (bfsLevel currentNode + 1)) (adjRow adj currentNode) (queue, bfsVisited, bfsLevel)
     else (queue, bfsVisited, bfsLevel))"

lemma bfsVisit_measure:
  assumes "bfsVisit removed lv nb (q, vis, lev) = (q', vis', lev')" "nb \<in> N" "finite N"
  shows "2 * card (N - vis') + length q' \<le> 2 * card (N - vis) + length q"
proof (cases "nb \<in> set removed \<or> nb \<in> vis")
  case True
  then show ?thesis using assms by (auto simp: bfsVisit_def)
next
  case False
  then have eq: "q' = q @ [nb]" "vis' = insert nb vis"
    using assms by (auto simp: bfsVisit_def)
  have "N - insert nb vis \<subset> N - vis" using False assms(2) by auto
  then have "card (N - insert nb vis) < card (N - vis)"
    using assms(3) by (intro psubset_card_mono) auto
  then show ?thesis using eq by simp
qed

lemma bfsVisit_fold_measure:
  assumes "fold (bfsVisit removed lv) nbs (q, vis, lev) = (q', vis', lev')" "set nbs \<subseteq> N" "finite N"
  shows "2 * card (N - vis') + length q' \<le> 2 * card (N - vis) + length q"
  using assms
proof (induction nbs arbitrary: q vis lev)
  case Nil
  then show ?case by simp
next
  case (Cons nb nbs)
  obtain q1 vis1 lev1 where st: "bfsVisit removed lv nb (q, vis, lev) = (q1, vis1, lev1)"
    by (metis prod_cases3)
  have "2 * card (N - vis1) + length q1 \<le> 2 * card (N - vis) + length q"
    using bfsVisit_measure[OF st] Cons.prems by simp
  moreover have "2 * card (N - vis') + length q' \<le> 2 * card (N - vis1) + length q1"
    using Cons.IH[of q1 vis1 lev1] Cons.prems st by simp
  ultimately show ?case by linarith
qed

lemma bfsExpand_measure:
  assumes "bfsExpand adj removed K cur (q, vis, lev) = (q', vis', lev')"
  shows "2 * card (nodes_of adj - vis') + length q' \<le> 2 * card (nodes_of adj - vis) + length q"
proof (cases "lev cur < K")
  case True
  then have "fold (bfsVisit removed (lev cur + 1)) (adjRow adj cur) (q, vis, lev) = (q', vis', lev')"
    using assms by (simp add: bfsExpand_def)
  then show ?thesis
    by (rule bfsVisit_fold_measure) (simp_all add: adjRow_subset finite_nodes_of)
next
  case False
  then show ?thesis using assms by (simp add: bfsExpand_def)
qed

text \<open>
  The \<open>while (head < tail)\<close> loop. The list is the part of \<open>bfsQueue_\<close> between
  \<open>head\<close> and \<open>tail\<close>; \<open>tr\<close> is \<open>intree_\<close> and \<open>visitedCount\<close> counts the dequeued
  vertices.
\<close>

function bfs_loop :: "NodeSet list \<Rightarrow> NodeSet \<Rightarrow> int \<Rightarrow> nat \<Rightarrow> Node
      \<Rightarrow> Node list \<times> Node set \<times> (Node \<Rightarrow> int) \<Rightarrow> nat list \<Rightarrow> nat \<Rightarrow> nat list \<times> nat" where
  "bfs_loop adj removed K n v ([], bfsVisited, bfsLevel) tr visitedCount = (tr, visitedCount)"
| "bfs_loop adj removed K n v (currentNode # queue, bfsVisited, bfsLevel) tr visitedCount =
     bfs_loop adj removed K n v
       (bfsExpand adj removed K currentNode (queue, bfsVisited, bfsLevel))
       (tr[treeIndex n v currentNode := 1]) (visitedCount + 1)"
  by pat_completeness auto

termination bfs_loop
proof (relation "measure (\<lambda>(adj, removed, K, n, v, (q, vis, lev), tr, c).
                     2 * card (nodes_of adj - vis) + length q)", goal_cases)
  case 1
  show ?case by simp
next
  case (2 adj removed K n v currentNode queue bfsVisited bfsLevel tr visitedCount)
  obtain q' vis' lev' where st:
    "bfsExpand adj removed K currentNode (queue, bfsVisited, bfsLevel) = (q', vis', lev')"
    by (metis prod_cases3)
  show ?case using bfsExpand_measure[OF st] st by simp
qed

definition clearRow :: "nat \<Rightarrow> Node \<Rightarrow> nat list \<Rightarrow> nat list" where
  "clearRow n v tr = fold (\<lambda>col t. t[treeIndex n v col := 0]) [0 ..< n] tr"

definition bfsKTree :: "Node \<Rightarrow> DCNP_Graph \<Rightarrow> DCNP_Graph" where
  "bfsKTree v g =
     (let tr0 = clearRow (numNodesD g) v (intree g) in
      if isNodeRemovedD g v then g\<lparr>intree := tr0, treeSize := (treeSize g)[v := 0]\<rparr>
      else
        (let (tr, visitedCount) =
               bfs_loop (currentAdjListD g) (removedNodesD g) (kHops g) (numNodesD g) v
                        ([v], {v}, (\<lambda>_. 0)(v := 0)) tr0 0
         in g\<lparr>intree := tr,
              treeSize := (treeSize g)[v := (if visitedCount > 0 then int (visitedCount - 1) else 0)]\<rparr>))"

definition buildTree :: "DCNP_Graph \<Rightarrow> DCNP_Graph" where
  "buildTree g = fold bfsKTree [0 ..< numNodesD g] g"

subsection \<open>Construction, rebuild and reduction\<close>

definition DCNP_Graph_new :: "NodeSet \<Rightarrow> int \<Rightarrow> NodeSet list \<Rightarrow> int \<Rightarrow> (nat \<Rightarrow> nat) \<Rightarrow> DCNP_Graph" where
  "DCNP_Graph_new ns K adjList budget stream =
     buildTree
       \<lparr>numNodesD = length ns,
        kHops = K,
        numToRemoveD = budget,
        originalNodesSetD = ns,
        nodeAgeD = replicate (length ns) 0,
        currentAdjListD = adjList,
        originalAdjListD = adjList,
        intree = replicate (length ns * length ns) 0,
        treeSize = replicate (length ns) 0,
        removedNodesD = [],
        rngD = \<lparr>outputs = stream, position = 0\<rparr>\<rparr>"

definition updateGraphByRemovedNodesD :: "NodeSet \<Rightarrow> DCNP_Graph \<Rightarrow> DCNP_Graph" where
  "updateGraphByRemovedNodesD nodesToRemove g =
     buildTree (g\<lparr>removedNodesD := fold NodeSet_insert nodesToRemove [],
                  currentAdjListD := originalAdjListD g\<rparr>)"

text \<open>One iteration of the loop of \<open>getReducedGraphByRemovedNodes\<close>; the state is
  \<open>originalNodesSet_\<close> and \<open>originalAdjList_\<close>, the neighbours are read from
  \<open>currentAdjList_\<close>.\<close>

definition reduceStep :: "NodeSet list \<Rightarrow> Node \<Rightarrow> NodeSet \<times> NodeSet list \<Rightarrow> NodeSet \<times> NodeSet list" where
  "reduceStep cur node = (\<lambda>(ons, orig).
     (NodeSet_erase node ons,
      (fold (\<lambda>neighbor o'. o'[neighbor := NodeSet_erase node (o' ! neighbor)]) (adjRow cur node) orig)
        [node := []]))"

definition getReducedGraphByRemovedNodesD :: "NodeSet \<Rightarrow> DCNP_Graph \<Rightarrow> DCNP_Graph" where
  "getReducedGraphByRemovedNodesD removeSet g =
     (let (ons, orig) = fold (reduceStep (currentAdjListD g)) removeSet
                             (originalNodesSetD g, originalAdjListD g)
      in buildTree (g\<lparr>removedNodesD := [],
                      numToRemoveD := numToRemoveD g - int (length removeSet),
                      originalNodesSetD := ons,
                      originalAdjListD := orig,
                      currentAdjListD := orig\<rparr>))"

subsection \<open>addNode and removeNode\<close>

definition addNodeD :: "Node \<Rightarrow> DCNP_Graph \<Rightarrow> DCNP_Graph" where
  "addNodeD nodeToAdd g =
     fold (\<lambda>i g. if intree g ! treeIndex (numNodesD g) nodeToAdd i \<noteq> 0 then bfsKTree i g else g)
          [0 ..< numNodesD g]
          (bfsKTree nodeToAdd (g\<lparr>removedNodesD := NodeSet_erase nodeToAdd (removedNodesD g)\<rparr>))"

definition removeNodeD :: "Node \<Rightarrow> DCNP_Graph \<Rightarrow> DCNP_Graph" where
  "removeNodeD nodeToRemove g =
     fold (\<lambda>i g. if intree g ! treeIndex (numNodesD g) i nodeToRemove \<noteq> 0 then bfsKTree i g else g)
          [0 ..< numNodesD g]
          (g\<lparr>removedNodesD := NodeSet_insert nodeToRemove (removedNodesD g)\<rparr>)"

definition calculateKhopTreeSize :: "DCNP_Graph \<Rightarrow> int" where
  "calculateKhopTreeSize g =
     (fold (\<lambda>i sumv. if \<not> isNodeRemovedD g i then sumv + treeSize g ! i else sumv) [0 ..< numNodesD g] 0) div 2"

subsection \<open>findBestNodeToRemove and findBestNodeToAdd\<close>

definition tryRemove :: "int \<Rightarrow> Node \<Rightarrow> DCNP_Graph \<times> int \<times> Node list \<times> int \<Rightarrow> DCNP_Graph \<times> int \<times> Node list \<times> int" where
  "tryRemove currentObjective i = (\<lambda>(g, bestNode, bestList, maxImprovement).
     if \<not> isNodeRemovedD g i then
       (let g1 = removeNodeD i g;
            newObjective = calculateKhopTreeSize g1;
            improvement = currentObjective - newObjective;
            g2 = addNodeD i g1
        in if improvement > maxImprovement then (g2, int i, [i], improvement)
           else if improvement = maxImprovement then (g2, bestNode, bestList @ [i], maxImprovement)
           else (g2, bestNode, bestList, maxImprovement))
     else (g, bestNode, bestList, maxImprovement))"

definition findBestNodeToRemove :: "DCNP_Graph \<Rightarrow> error + (int \<times> DCNP_Graph)" where
  "findBestNodeToRemove g =
     (let currentObjective = calculateKhopTreeSize g;
          (g1, bestNode, bestList, maxImprovement) =
             fold (tryRemove currentObjective) [0 ..< numNodesD g] (g, INVALID_NODE, [], 0)
      in if length bestList > 1 then
           (case generateIndex (length bestList) (rngD g1) of
              Inl e \<Rightarrow> Inl e
            | Inr (j, r) \<Rightarrow> Inr (int (bestList ! j), g1\<lparr>rngD := r\<rparr>))
         else Inr (bestNode, g1))"

definition tryAdd :: "int \<Rightarrow> Node \<Rightarrow> DCNP_Graph \<times> int \<times> Node list \<times> int \<Rightarrow> DCNP_Graph \<times> int \<times> Node list \<times> int" where
  "tryAdd currentObjective node = (\<lambda>(g, bestNode, bestList, minDeterioration).
     (let g1 = addNodeD node g;
          newObjective = calculateKhopTreeSize g1;
          deterioration = newObjective - currentObjective;
          g2 = removeNodeD node g1
      in if deterioration < minDeterioration then (g2, int node, [node], deterioration)
         else if deterioration = minDeterioration then (g2, bestNode, bestList @ [node], minDeterioration)
         else (g2, bestNode, bestList, minDeterioration)))"

definition findBestNodeToAdd :: "DCNP_Graph \<Rightarrow> error + (int \<times> DCNP_Graph)" where
  "findBestNodeToAdd g =
     (let solution = removedNodesD g;
          currentObjective = calculateKhopTreeSize g;
          (g1, bestNode, bestList, minDeterioration) =
             fold (tryAdd currentObjective) solution (g, INVALID_NODE, [], INT_MAX)
      in if length bestList > 1 then
           (case generateIndex (length bestList) (rngD g1) of
              Inl e \<Rightarrow> Inl e
            | Inr (j, r) \<Rightarrow> Inr (int (bestList ! j), g1\<lparr>rngD := r\<rparr>))
         else Inr (bestNode, g1))"

subsection \<open>The selection rule of findBestNodeToRemove\<close>

text \<open>
  The rule by which \<open>findBestNodeToRemove\<close> chooses, stated on the improvements the
  loop measures. \<open>measuredImprovements\<close> runs the loop's tentative removals (remove,
  read the objective, add back) and lists every non-removed vertex with its improvement
  \<open>currentObjective - newObjective\<close>. \<open>bestImprovement\<close> is the largest of them and
  of the start value 0, \<open>attaining\<close> the vertices that reach it, in the order of the
  loop. The rule: with more than one vertex at the best improvement one draw decides
  among them; with a single vertex and a positive improvement that vertex is returned;
  otherwise (no candidate, or one candidate whose improvement is 0 or less) the result
  is \<open>INVALID_NODE\<close>.
\<close>

fun measuredImprovements :: "int \<Rightarrow> Node list \<Rightarrow> DCNP_Graph \<Rightarrow> (Node \<times> int) list \<times> DCNP_Graph" where
  "measuredImprovements currentObjective [] g = ([], g)"
| "measuredImprovements currentObjective (i # rest) g =
     (if isNodeRemovedD g i then measuredImprovements currentObjective rest g
      else (let g1 = removeNodeD i g;
                improvement = currentObjective - calculateKhopTreeSize g1;
                (ms, g') = measuredImprovements currentObjective rest (addNodeD i g1)
            in ((i, improvement) # ms, g')))"

definition bestImprovement :: "(Node \<times> int) list \<Rightarrow> int \<Rightarrow> int" where
  "bestImprovement ms start = fold max (map snd ms) start"

definition attaining :: "int \<Rightarrow> (Node \<times> int) list \<Rightarrow> Node list" where
  "attaining m ms = map fst (filter (\<lambda>p. snd p = m) ms)"

definition findBestNodeToRemove_rule :: "DCNP_Graph \<Rightarrow> error + (int \<times> DCNP_Graph)" where
  "findBestNodeToRemove_rule g =
     (let (ms, g1) = measuredImprovements (calculateKhopTreeSize g) [0 ..< numNodesD g] g;
          best = attaining (bestImprovement ms 0) ms
      in if length best > 1 then
           (case generateIndex (length best) (rngD g1) of
              Inl e \<Rightarrow> Inl e
            | Inr (j, r) \<Rightarrow> Inr (int (best ! j), g1\<lparr>rngD := r\<rparr>))
         else if 0 < bestImprovement ms 0 then Inr (int (hd best), g1)
         else Inr (INVALID_NODE, g1))"

subsection \<open>calculateBetweennessCentrality\<close>

text \<open>
  Brandes' algorithm as the source runs it. The vectors \<open>d\<close>, \<open>sigma\<close>, \<open>P\<close> and
  \<open>delta\<close> are created for every source vertex and are total maps here. \<open>d\<close> holds
  \<open>-1\<close> for a vertex not reached yet and a distance otherwise: \<open>None\<close> stands for
  \<open>-1\<close>, and \<open>dval\<close> reads the C++ value. \<open>double\<close> values are real numbers (on the
  graphs evaluated below every value is a small integer, which \<open>double\<close> represents
  exactly). The result vector is a \<open>static\<close> local of the function: one buffer for the
  whole process, passed in and returned.
\<close>

definition dval :: "nat option \<Rightarrow> int" where
  "dval x = (case x of None \<Rightarrow> -1 | Some k \<Rightarrow> int k)"

definition brandesVisit :: "NodeSet \<Rightarrow> Node \<Rightarrow> Node
      \<Rightarrow> Node list \<times> (Node \<Rightarrow> nat option) \<times> (Node \<Rightarrow> int) \<times> (Node \<Rightarrow> Node list)
      \<Rightarrow> Node list \<times> (Node \<Rightarrow> nat option) \<times> (Node \<Rightarrow> int) \<times> (Node \<Rightarrow> Node list)" where
  "brandesVisit removed v w = (\<lambda>(Q, d, sigma, P).
     if w \<in> set removed then (Q, d, sigma, P)
     else
       (let (Q1, d1) = (if dval (d w) < 0 then (Q @ [w], d(w := Some (nat (dval (d v) + 1)))) else (Q, d)) in
        if dval (d1 w) = dval (d1 v) + 1 then (Q1, d1, sigma(w := sigma w + sigma v), P(w := P w @ [v]))
        else (Q1, d1, sigma, P)))"

lemma dval_neg: "dval x < 0 \<longleftrightarrow> x = None"
  by (cases x) (simp_all add: dval_def)

lemma brandesVisit_measure:
  assumes "brandesVisit removed v w (Q, d, sigma, P) = (Q', d', sigma', P')" "w \<in> N" "finite N"
  shows "2 * card (N - dom d') + length Q' \<le> 2 * card (N - dom d) + length Q"
proof (cases "w \<in> set removed \<or> d w \<noteq> None")
  case True
  then have "Q' = Q \<and> d' = d"
    using assms(1) by (auto simp: brandesVisit_def Let_def dval_neg split: if_splits)
  then show ?thesis by simp
next
  case False
  then have eq: "Q' = Q @ [w]" "d' = d(w := Some (nat (dval (d v) + 1)))"
    using assms(1) by (auto simp: brandesVisit_def Let_def dval_neg split: if_splits)
  have "N - dom d' \<subset> N - dom d"
    using False assms(2) eq by auto
  then have "card (N - dom d') < card (N - dom d)"
    using assms(3) by (intro psubset_card_mono) auto
  then show ?thesis using eq by simp
qed

lemma brandesVisit_fold_measure:
  assumes "fold (brandesVisit removed v) ws (Q, d, sigma, P) = (Q', d', sigma', P')"
          "set ws \<subseteq> N" "finite N"
  shows "2 * card (N - dom d') + length Q' \<le> 2 * card (N - dom d) + length Q"
  using assms
proof (induction ws arbitrary: Q d sigma P)
  case Nil
  then show ?case by simp
next
  case (Cons w ws)
  obtain Q1 d1 sigma1 P1 where st: "brandesVisit removed v w (Q, d, sigma, P) = (Q1, d1, sigma1, P1)"
    by (metis prod_cases4)
  have "2 * card (N - dom d1) + length Q1 \<le> 2 * card (N - dom d) + length Q"
    using brandesVisit_measure[OF st] Cons.prems by simp
  moreover have "2 * card (N - dom d') + length Q' \<le> 2 * card (N - dom d1) + length Q1"
    using Cons.IH[of Q1 d1 sigma1 P1] Cons.prems st by simp
  ultimately show ?case by linarith
qed

text \<open>The \<open>while (!Q.empty())\<close> loop; \<open>S\<close> is the stack, its head the top.\<close>

function brandes_bfs :: "NodeSet list \<Rightarrow> NodeSet
      \<Rightarrow> Node list \<times> (Node \<Rightarrow> nat option) \<times> (Node \<Rightarrow> int) \<times> (Node \<Rightarrow> Node list)
      \<Rightarrow> Node list \<Rightarrow> Node list \<times> (Node \<Rightarrow> int) \<times> (Node \<Rightarrow> Node list)" where
  "brandes_bfs adj removed ([], d, sigma, P) S = (S, sigma, P)"
| "brandes_bfs adj removed (v # Q, d, sigma, P) S =
     brandes_bfs adj removed (fold (brandesVisit removed v) (adjRow adj v) (Q, d, sigma, P)) (v # S)"
  by pat_completeness auto

termination brandes_bfs
proof (relation "measure (\<lambda>(adj, removed, (Q, d, sigma, P), S).
                     2 * card (nodes_of adj - dom d) + length Q)", goal_cases)
  case 1
  show ?case by simp
next
  case (2 adj removed v Q d sigma P S)
  obtain Q' d' sigma' P' where st:
    "fold (brandesVisit removed v) (adjRow adj v) (Q, d, sigma, P) = (Q', d', sigma', P')"
    by (metis prod_cases4)
  have "2 * card (nodes_of adj - dom d') + length Q' \<le> 2 * card (nodes_of adj - dom d) + length Q"
    by (rule brandesVisit_fold_measure[OF st]) (simp_all add: adjRow_subset finite_nodes_of)
  then show ?case using st by simp
qed

text \<open>The second loop: pop \<open>w\<close> from \<open>S\<close>, push its dependency to its predecessors,
  and add \<open>delta[w]\<close> to the result unless \<open>w\<close> is the source.\<close>

definition brandesPop :: "Node \<Rightarrow> (Node \<Rightarrow> int) \<Rightarrow> (Node \<Rightarrow> Node list) \<Rightarrow> Node
      \<Rightarrow> (Node \<Rightarrow> real) \<times> real list \<Rightarrow> (Node \<Rightarrow> real) \<times> real list" where
  "brandesPop s sigma P w = (\<lambda>(delta, betweenness).
     (let delta1 = fold (\<lambda>v delta. delta(v := delta v
                           + (real_of_int (sigma v) / real_of_int (sigma w)) * (1 + delta w)))
                        (P w) delta
      in (delta1, if w \<noteq> s then betweenness[w := betweenness ! w + delta1 w] else betweenness)))"

definition brandesFrom :: "DCNP_Graph \<Rightarrow> Node \<Rightarrow> real list \<Rightarrow> real list" where
  "brandesFrom g s betweenness =
     (if isNodeRemovedD g s then betweenness
      else
        (let (S, sigma, P) =
               brandes_bfs (currentAdjListD g) (removedNodesD g)
                 ([s], (\<lambda>_. None)(s := Some 0), (\<lambda>_. 0)(s := 1), (\<lambda>_. [])) []
         in snd (fold (brandesPop s sigma P) S ((\<lambda>_. 0), betweenness))))"

text \<open>\<open>betweenness.resize(numNodes_, 0.0)\<close> keeps the entries the buffer already has.\<close>

definition resizeTo :: "nat \<Rightarrow> real list \<Rightarrow> real list" where
  "resizeTo n xs = take n xs @ replicate (n - length xs) 0"

definition calculateBetweennessCentrality :: "real list \<Rightarrow> DCNP_Graph \<Rightarrow> real list" where
  "calculateBetweennessCentrality static g =
     fold (brandesFrom g) [0 ..< numNodesD g] (resizeTo (numNodesD g) static)"

section \<open>Graph: the facade over the two engines\<close>

datatype Graph = CNP CNP_Graph | DCNP DCNP_Graph

definition bindE :: "error + 'a \<Rightarrow> ('a \<Rightarrow> error + 'b) \<Rightarrow> error + 'b" where
  "bindE m f = (case m of Inl e \<Rightarrow> Inl e | Inr x \<Rightarrow> f x)"

definition setNodeAgeD :: "Node \<Rightarrow> Age \<Rightarrow> DCNP_Graph \<Rightarrow> DCNP_Graph" where
  "setNodeAgeD node age g = g\<lparr>nodeAgeD := (nodeAgeD g)[node := age]\<rparr>"

definition getObjectiveValueD :: "DCNP_Graph \<Rightarrow> int" where
  "getObjectiveValueD g = calculateKhopTreeSize g"

fun Graph_updateGraphByRemovedNodes :: "NodeSet \<Rightarrow> Graph \<Rightarrow> Graph" where
  "Graph_updateGraphByRemovedNodes nodesToRemove (CNP g) = CNP (updateGraphByRemovedNodes nodesToRemove g)"
| "Graph_updateGraphByRemovedNodes nodesToRemove (DCNP g) = DCNP (updateGraphByRemovedNodesD nodesToRemove g)"

fun Graph_removeNode :: "Node \<Rightarrow> Graph \<Rightarrow> error + Graph" where
  "Graph_removeNode node (CNP g) = bindE (removeNode node g) (\<lambda>g'. Inr (CNP g'))"
| "Graph_removeNode node (DCNP g) = Inr (DCNP (removeNodeD node g))"

fun Graph_addNode :: "Node \<Rightarrow> Graph \<Rightarrow> Graph" where
  "Graph_addNode node (CNP g) = CNP (addNode node g)"
| "Graph_addNode node (DCNP g) = DCNP (addNodeD node g)"

fun Graph_setNodeAge :: "Node \<Rightarrow> Age \<Rightarrow> Graph \<Rightarrow> Graph" where
  "Graph_setNodeAge node age (CNP g) = CNP (setNodeAge node age g)"
| "Graph_setNodeAge node age (DCNP g) = DCNP (setNodeAgeD node age g)"

fun Graph_getObjectiveValue :: "Graph \<Rightarrow> int" where
  "Graph_getObjectiveValue (CNP g) = getObjectiveValue g"
| "Graph_getObjectiveValue (DCNP g) = getObjectiveValueD g"

fun Graph_getRemovedNodes :: "Graph \<Rightarrow> NodeSet" where
  "Graph_getRemovedNodes (CNP g) = removedNodes g"
| "Graph_getRemovedNodes (DCNP g) = removedNodesD g"

fun Graph_selectRemovedComponent :: "Graph \<Rightarrow> error + (ComponentIndex \<times> Graph)" where
  "Graph_selectRemovedComponent (CNP g) = bindE (selectRemovedComponent g) (\<lambda>(c, g'). Inr (c, CNP g'))"
| "Graph_selectRemovedComponent (DCNP g) =
     Inl (runtime_error ''selectRemovedComponent is only available for CNP graphs'')"

fun Graph_randomSelectNodeFromComponent :: "ComponentIndex \<Rightarrow> Graph \<Rightarrow> error + (Node \<times> Graph)" where
  "Graph_randomSelectNodeFromComponent c (CNP g) =
     bindE (randomSelectNodeFromComponent c g) (\<lambda>(v, g'). Inr (v, CNP g'))"
| "Graph_randomSelectNodeFromComponent c (DCNP g) =
     Inl (runtime_error ''randomSelectNodeFromComponent is only available for CNP graphs'')"

fun Graph_impactSelectNodeFromComponent :: "ComponentIndex \<Rightarrow> Graph \<Rightarrow> error + (Node \<times> Graph)" where
  "Graph_impactSelectNodeFromComponent c (CNP g) =
     bindE (impactSelectNodeFromComponent c g) (\<lambda>(v, g'). Inr (v, CNP g'))"
| "Graph_impactSelectNodeFromComponent c (DCNP g) =
     Inl (runtime_error ''impactSelectNodeFromComponent is only available for CNP graphs'')"

fun Graph_ageSelectNodeFromComponent :: "ComponentIndex \<Rightarrow> Graph \<Rightarrow> error + (Node \<times> Graph)" where
  "Graph_ageSelectNodeFromComponent c (CNP g) =
     bindE (ageSelectNodeFromComponent c g) (\<lambda>(v, g'). Inr (v, CNP g'))"
| "Graph_ageSelectNodeFromComponent c (DCNP g) =
     Inl (runtime_error ''ageSelectNodeFromComponent is only available for CNP graphs'')"

fun Graph_greedySelectNodeToAdd :: "Graph \<Rightarrow> error + (int \<times> Graph)" where
  "Graph_greedySelectNodeToAdd (CNP g) = bindE (greedySelectNodeToAdd g) (\<lambda>(v, g'). Inr (int v, CNP g'))"
| "Graph_greedySelectNodeToAdd (DCNP g) = bindE (findBestNodeToAdd g) (\<lambda>(v, g'). Inr (v, DCNP g'))"

section \<open>Local-search strategies\<close>

record SearchResult =
  solution :: Solution
  objValue :: int

text \<open>The re-insertion shared by the CBNS, CHNS and DLAS moves:
  \<open>if (nodeToAdd != INVALID_NODE) { addNode(nodeToAdd); setNodeAge(nodeToAdd, numSteps); }\<close>\<close>

definition addBack :: "int \<Rightarrow> int \<Rightarrow> Graph \<Rightarrow> Graph" where
  "addBack nodeToAdd numSteps g =
     (if nodeToAdd \<noteq> INVALID_NODE
      then Graph_setNodeAge (nat nodeToAdd) numSteps (Graph_addNode (nat nodeToAdd) g)
      else g)"

subsection \<open>CBNS\<close>

definition CBNS_performMove :: "Graph \<Rightarrow> int \<Rightarrow> error + (Graph \<times> int)" where
  "CBNS_performMove currentGraph numSteps =
     bindE (Graph_selectRemovedComponent currentGraph) (\<lambda>(componentToRemove, g1).
     bindE (Graph_ageSelectNodeFromComponent componentToRemove g1) (\<lambda>(nodeToRemove, g2).
     bindE (Graph_removeNode nodeToRemove g2) (\<lambda>g3.
     bindE (Graph_greedySelectNodeToAdd (Graph_setNodeAge nodeToRemove numSteps g3)) (\<lambda>(nodeToAdd, g4).
       (let g5 = addBack nodeToAdd numSteps g4 in Inr (g5, Graph_getObjectiveValue g5))))))"

subsection \<open>CHNS\<close>

text \<open>The strategy draws from its own generator to choose between impact and age.\<close>

definition CHNS_performMove :: "real \<Rightarrow> RandomNumberGenerator \<Rightarrow> Graph \<Rightarrow> int
      \<Rightarrow> error + (Graph \<times> int \<times> RandomNumberGenerator)" where
  "CHNS_performMove theta srng currentGraph numSteps =
     bindE (Graph_selectRemovedComponent currentGraph) (\<lambda>(componentToRemove, g1).
       (let (p, srng') = generateProbability srng in
        bindE (if p < theta then Graph_impactSelectNodeFromComponent componentToRemove g1
               else Graph_ageSelectNodeFromComponent componentToRemove g1) (\<lambda>(nodeToRemove, g2).
        bindE (Graph_removeNode nodeToRemove g2) (\<lambda>g3.
        bindE (Graph_greedySelectNodeToAdd (Graph_setNodeAge nodeToRemove numSteps g3)) (\<lambda>(nodeToAdd, g4).
          (let g5 = addBack nodeToAdd numSteps g4 in Inr (g5, Graph_getObjectiveValue g5, srng')))))))"

subsection \<open>DLAS\<close>

text \<open>
  The second half of \<open>DLASStrategy::performMove\<close> (from \<open>int historyLength\<close> on):
  acceptance or rollback, then the update of the history slot. The state is the graph,
  \<open>currentObjValue\<close>, \<open>historyCost\<close>, \<open>maxCost\<close> and \<open>numMaxCost\<close>.
\<close>

definition DLAS_settle :: "Solution \<Rightarrow> int \<Rightarrow> int \<Rightarrow> Graph \<times> int \<times> int list \<times> int \<times> int
      \<Rightarrow> error + (Graph \<times> int \<times> int list \<times> int \<times> int)" where
  "DLAS_settle previousRemovedNodes previousObjValue numSteps =
     (\<lambda>(g, currentObjValue0, historyCost, maxCost, numMaxCost).
      if length historyCost = 0 then Inl undefined_behaviour
      else
        (let historyIndex = nat (numSteps mod int (length historyCost));
             (g1, currentObjValue) =
               (if currentObjValue0 = previousObjValue \<or> currentObjValue0 < maxCost
                then (g, currentObjValue0)
                else (Graph_updateGraphByRemovedNodes previousRemovedNodes g, previousObjValue))
         in if currentObjValue > historyCost ! historyIndex then
              Inr (g1, currentObjValue, historyCost[historyIndex := currentObjValue], maxCost, numMaxCost)
            else if currentObjValue < historyCost ! historyIndex \<and> currentObjValue < previousObjValue then
              (let historyCost1 = historyCost[historyIndex := currentObjValue];
                   numMaxCost1 = (if historyCost1 ! historyIndex = maxCost then numMaxCost - 1 else numMaxCost)
               in if numMaxCost1 = 0 then
                    Inr (g1, currentObjValue, historyCost1, Max (set historyCost1),
                         int (count_list historyCost1 (Max (set historyCost1))))
                  else Inr (g1, currentObjValue, historyCost1, maxCost, numMaxCost1))
            else Inr (g1, currentObjValue, historyCost, maxCost, numMaxCost)))"

definition DLAS_performMove :: "Graph \<Rightarrow> int \<Rightarrow> int list \<Rightarrow> int \<Rightarrow> int \<Rightarrow> int
      \<Rightarrow> error + (Graph \<times> int \<times> int list \<times> int \<times> int)" where
  "DLAS_performMove currentGraph currentObjValue historyCost maxCost numMaxCost numSteps =
     (let previousRemovedNodes = Graph_getRemovedNodes currentGraph;
          previousObjValue = currentObjValue
      in bindE (Graph_selectRemovedComponent currentGraph) (\<lambda>(componentToRemove, g1).
         bindE (Graph_randomSelectNodeFromComponent componentToRemove g1) (\<lambda>(nodeToRemove, g2).
         bindE (Graph_removeNode nodeToRemove g2) (\<lambda>g3.
         bindE (Graph_greedySelectNodeToAdd g3) (\<lambda>(nodeToAdd, g4).
           (let g5 = addBack nodeToAdd numSteps g4 in
            DLAS_settle previousRemovedNodes previousObjValue numSteps
              (g5, Graph_getObjectiveValue g5, historyCost, maxCost, numMaxCost)))))))"

text \<open>
  The rule the documentation of DLAS gives for the same step, in the words of the
  specification: the slot is overwritten, and the count of maxima goes down when the
  value that was in the slot equalled the maximum.
\<close>

definition DLAS_settle_documented :: "Solution \<Rightarrow> int \<Rightarrow> int \<Rightarrow> Graph \<times> int \<times> int list \<times> int \<times> int
      \<Rightarrow> error + (Graph \<times> int \<times> int list \<times> int \<times> int)" where
  "DLAS_settle_documented previousRemovedNodes previousObjValue numSteps =
     (\<lambda>(g, currentObjValue0, historyCost, maxCost, numMaxCost).
      if length historyCost = 0 then Inl undefined_behaviour
      else
        (let historyIndex = nat (numSteps mod int (length historyCost));
             (g1, currentObjValue) =
               (if currentObjValue0 = previousObjValue \<or> currentObjValue0 < maxCost
                then (g, currentObjValue0)
                else (Graph_updateGraphByRemovedNodes previousRemovedNodes g, previousObjValue))
         in if currentObjValue > historyCost ! historyIndex then
              Inr (g1, currentObjValue, historyCost[historyIndex := currentObjValue], maxCost, numMaxCost)
            else if currentObjValue < historyCost ! historyIndex \<and> currentObjValue < previousObjValue then
              (let historyCost1 = historyCost[historyIndex := currentObjValue];
                   numMaxCost1 = (if historyCost ! historyIndex = maxCost then numMaxCost - 1 else numMaxCost)
               in if numMaxCost1 = 0 then
                    Inr (g1, currentObjValue, historyCost1, Max (set historyCost1),
                         int (count_list historyCost1 (Max (set historyCost1))))
                  else Inr (g1, currentObjValue, historyCost1, maxCost, numMaxCost1))
            else Inr (g1, currentObjValue, historyCost, maxCost, numMaxCost)))"

subsection \<open>Handles keep their kind\<close>

text \<open>A handle never changes its kind, and the objective of a CNP handle is a
  signed 32-bit value.\<close>

fun isCNP :: "Graph \<Rightarrow> bool" where
  "isCNP (CNP g) = True"
| "isCNP (DCNP g) = False"

lemma bindE_Inr: "bindE m f = Inr y \<Longrightarrow> \<exists>x. m = Inr x \<and> f x = Inr y"
  by (cases m) (simp_all add: bindE_def)

lemma isCNP_objective_lower: "isCNP g \<Longrightarrow> - (2 ^ 31) \<le> Graph_getObjectiveValue g"
  using sint_ge[where 'a=32] by (cases g) (simp_all add: getObjectiveValue_def)

lemma isCNP_setNodeAge [simp]: "isCNP (Graph_setNodeAge v a g) = isCNP g"
  by (cases g) simp_all

lemma isCNP_addNode [simp]: "isCNP (Graph_addNode v g) = isCNP g"
  by (cases g) simp_all

lemma isCNP_addBack [simp]: "isCNP (addBack v n g) = isCNP g"
  by (simp add: addBack_def)

lemma isCNP_update [simp]: "isCNP (Graph_updateGraphByRemovedNodes s g) = isCNP g"
  by (cases g) simp_all

lemma isCNP_removeNode: "Graph_removeNode v g = Inr g' \<Longrightarrow> isCNP g' = isCNP g"
  by (cases g) (auto dest!: bindE_Inr)

lemma isCNP_select: "Graph_selectRemovedComponent g = Inr (c, g') \<Longrightarrow> isCNP g'"
  by (cases g) (auto dest!: bindE_Inr)

lemma isCNP_ageSelect: "Graph_ageSelectNodeFromComponent c g = Inr (v, g') \<Longrightarrow> isCNP g'"
  by (cases g) (auto dest!: bindE_Inr)

lemma isCNP_impactSelect: "Graph_impactSelectNodeFromComponent c g = Inr (v, g') \<Longrightarrow> isCNP g'"
  by (cases g) (auto dest!: bindE_Inr)

lemma isCNP_randomSelect: "Graph_randomSelectNodeFromComponent c g = Inr (v, g') \<Longrightarrow> isCNP g'"
  by (cases g) (auto dest!: bindE_Inr)

lemma isCNP_greedy: "Graph_greedySelectNodeToAdd g = Inr (v, g') \<Longrightarrow> isCNP g' = isCNP g"
  by (cases g) (auto dest!: bindE_Inr)

subsection \<open>The search loops\<close>

text \<open>
  \<open>execute()\<close> of each strategy: moves are made until \<open>maxIdleSteps_\<close> consecutive
  moves have not improved the best objective. An exception of a move ends the search.
  Every improvement lowers the best objective, which is bounded below, so the loops
  terminate.
\<close>

lemma CBNS_performMove_Inr:
  assumes "CBNS_performMove g n = Inr (g', c)"
  obtains comp g1 v g2 g3 a g4 where
    "Graph_selectRemovedComponent g = Inr (comp, g1)"
    "Graph_ageSelectNodeFromComponent comp g1 = Inr (v, g2)"
    "Graph_removeNode v g2 = Inr g3"
    "Graph_greedySelectNodeToAdd (Graph_setNodeAge v n g3) = Inr (a, g4)"
    "g' = addBack a n g4" "c = Graph_getObjectiveValue g'"
  using assms unfolding CBNS_performMove_def
  by (auto dest!: bindE_Inr simp: Let_def)

lemma CBNS_performMove_isCNP:
  assumes "CBNS_performMove g n = Inr (g', c)"
  shows "isCNP g' \<and> c = Graph_getObjectiveValue g'"
proof -
  from assms obtain comp g1 v g2 g3 a g4 where
    2: "Graph_ageSelectNodeFromComponent comp g1 = Inr (v, g2)" and
    3: "Graph_removeNode v g2 = Inr g3" and
    4: "Graph_greedySelectNodeToAdd (Graph_setNodeAge v n g3) = Inr (a, g4)" and
    r4: "g' = addBack a n g4" "c = Graph_getObjectiveValue g'"
    by (rule CBNS_performMove_Inr)
  have "isCNP g2" using 2 by (rule isCNP_ageSelect)
  then have "isCNP g3" using isCNP_removeNode[OF 3] by simp
  then have "isCNP g4" using isCNP_greedy[OF 4] by simp
  then show ?thesis using r4 by simp
qed

function CBNS_loop :: "int \<Rightarrow> Graph \<times> int \<times> Solution \<times> int \<times> int \<times> int \<Rightarrow> error + (SearchResult \<times> Graph)" where
  "CBNS_loop maxIdleSteps (currentGraph, currentObjValue, bestSolution, bestObjValue, numIdleSteps, numSteps) =
     (if numIdleSteps < maxIdleSteps then
        (case CBNS_performMove currentGraph (numSteps + 1) of
           Inl e \<Rightarrow> Inl e
         | Inr (g', cur') \<Rightarrow>
             if cur' < bestObjValue
             then CBNS_loop maxIdleSteps (g', cur', Graph_getRemovedNodes g', cur', 0, numSteps + 1)
             else CBNS_loop maxIdleSteps (g', cur', bestSolution, bestObjValue, numIdleSteps + 1, numSteps + 1))
      else Inr (\<lparr>solution = bestSolution, objValue = bestObjValue\<rparr>, currentGraph))"
  by pat_completeness auto

termination CBNS_loop
proof (relation "measures [\<lambda>(m, g, cur, bs, bo, idle, steps). nat (bo + 2 ^ 31),
                           \<lambda>(m, g, cur, bs, bo, idle, steps). nat (m - idle)]", goal_cases)
  case 1
  show ?case by simp
next
  case (2 maxIdleSteps currentGraph currentObjValue bestSolution bestObjValue numIdleSteps numSteps x2 g' cur')
  then have "CBNS_performMove currentGraph (numSteps + 1) = Inr (g', cur')" by simp
  then have "- (2 ^ 31) \<le> cur'"
    using CBNS_performMove_isCNP isCNP_objective_lower by blast
  then show ?case using 2 by simp
next
  case 3
  then show ?case by simp
qed


lemma CHNS_performMove_Inr:
  assumes "CHNS_performMove theta srng g n = Inr (g', c, srng')"
  obtains comp g1 v g2 g3 a g4 where
    "Graph_selectRemovedComponent g = Inr (comp, g1)"
    "Graph_impactSelectNodeFromComponent comp g1 = Inr (v, g2)
       \<or> Graph_ageSelectNodeFromComponent comp g1 = Inr (v, g2)"
    "Graph_removeNode v g2 = Inr g3"
    "Graph_greedySelectNodeToAdd (Graph_setNodeAge v n g3) = Inr (a, g4)"
    "g' = addBack a n g4" "c = Graph_getObjectiveValue g'"
proof -
  obtain p r where pr: "generateProbability srng = (p, r)" by (cases "generateProbability srng")
  from assms pr obtain comp g1 where
    1: "Graph_selectRemovedComponent g = Inr (comp, g1)" and
    rest: "bindE (if p < theta then Graph_impactSelectNodeFromComponent comp g1
               else Graph_ageSelectNodeFromComponent comp g1) (\<lambda>(nodeToRemove, g2).
        bindE (Graph_removeNode nodeToRemove g2) (\<lambda>g3.
        bindE (Graph_greedySelectNodeToAdd (Graph_setNodeAge nodeToRemove n g3)) (\<lambda>(nodeToAdd, g4).
          (let g5 = addBack nodeToAdd n g4 in Inr (g5, Graph_getObjectiveValue g5, r))))) = Inr (g', c, srng')"
    unfolding CHNS_performMove_def by (cases "Graph_selectRemovedComponent g") (auto simp: bindE_def)
  from rest obtain v g2 g3 a g4 where
    2: "(if p < theta then Graph_impactSelectNodeFromComponent comp g1
               else Graph_ageSelectNodeFromComponent comp g1) = Inr (v, g2)" and
    3: "Graph_removeNode v g2 = Inr g3" and
    4: "Graph_greedySelectNodeToAdd (Graph_setNodeAge v n g3) = Inr (a, g4)" and
    5: "g' = addBack a n g4" "c = Graph_getObjectiveValue g'"
    by (auto dest!: bindE_Inr simp: Let_def)
  from 2 have "Graph_impactSelectNodeFromComponent comp g1 = Inr (v, g2)
       \<or> Graph_ageSelectNodeFromComponent comp g1 = Inr (v, g2)"
    by (simp split: if_splits)
  then show thesis using that 1 3 4 5 by blast
qed

lemma CHNS_performMove_isCNP:
  assumes "CHNS_performMove theta srng g n = Inr (g', c, srng')"
  shows "isCNP g' \<and> c = Graph_getObjectiveValue g'"
proof -
  from assms obtain comp g1 v g2 g3 a g4 where
    2: "Graph_impactSelectNodeFromComponent comp g1 = Inr (v, g2)
       \<or> Graph_ageSelectNodeFromComponent comp g1 = Inr (v, g2)" and
    3: "Graph_removeNode v g2 = Inr g3" and
    4: "Graph_greedySelectNodeToAdd (Graph_setNodeAge v n g3) = Inr (a, g4)" and
    r4: "g' = addBack a n g4" "c = Graph_getObjectiveValue g'"
    by (rule CHNS_performMove_Inr)
  have "isCNP g2" using 2 isCNP_ageSelect isCNP_impactSelect by blast
  then have "isCNP g3" using isCNP_removeNode[OF 3] by simp
  then have "isCNP g4" using isCNP_greedy[OF 4] by simp
  then show ?thesis using r4 by simp
qed

function CHNS_loop :: "int \<Rightarrow> real \<Rightarrow> Graph \<times> RandomNumberGenerator \<times> int \<times> Solution \<times> int \<times> int \<times> int
      \<Rightarrow> error + (SearchResult \<times> Graph)" where
  "CHNS_loop maxIdleSteps theta (currentGraph, srng, currentObjValue, bestSolution, bestObjValue, numIdleSteps, numSteps) =
     (if numIdleSteps < maxIdleSteps then
        (case CHNS_performMove theta srng currentGraph (numSteps + 1) of
           Inl e \<Rightarrow> Inl e
         | Inr (g', cur', srng') \<Rightarrow>
             if cur' < bestObjValue
             then CHNS_loop maxIdleSteps theta (g', srng', cur', Graph_getRemovedNodes g', cur', 0, numSteps + 1)
             else CHNS_loop maxIdleSteps theta (g', srng', cur', bestSolution, bestObjValue, numIdleSteps + 1, numSteps + 1))
      else Inr (\<lparr>solution = bestSolution, objValue = bestObjValue\<rparr>, currentGraph))"
  by pat_completeness auto

termination CHNS_loop
proof (relation "measures [\<lambda>(m, th, g, r, cur, bs, bo, idle, steps). nat (bo + 2 ^ 31),
                           \<lambda>(m, th, g, r, cur, bs, bo, idle, steps). nat (m - idle)]", goal_cases)
  case 1
  show ?case by simp
next
  case (2 maxIdleSteps theta currentGraph srng currentObjValue bestSolution bestObjValue numIdleSteps numSteps x2 g' y cur' srng')
  then have "CHNS_performMove theta srng currentGraph (numSteps + 1) = Inr (g', cur', srng')" by simp
  then have "- (2 ^ 31) \<le> cur'"
    using CHNS_performMove_isCNP isCNP_objective_lower by blast
  then show ?case using 2 by simp
next
  case 3
  then show ?case by simp
qed

lemma DLAS_settle_obj:
  assumes "DLAS_settle prs prev n (g, c0, h, m, k) = Inr (g', c', h', m', k')"
  shows "c' = c0 \<or> c' = prev"
  using assms unfolding DLAS_settle_def
  by (auto simp: Let_def split: if_splits prod.splits)

lemma DLAS_performMove_obj:
  assumes "DLAS_performMove g cur h m k n = Inr (g', c', h', m', k')"
  shows "c' = cur \<or> - (2 ^ 31) \<le> c'"
proof -
  from assms obtain comp g1 v g2 g3 a g4 where
    2: "Graph_randomSelectNodeFromComponent comp g1 = Inr (v, g2)" and
    3: "Graph_removeNode v g2 = Inr g3" and
    4: "Graph_greedySelectNodeToAdd g3 = Inr (a, g4)" and
    5: "DLAS_settle (Graph_getRemovedNodes g) cur n
          (addBack a n g4, Graph_getObjectiveValue (addBack a n g4), h, m, k) = Inr (g', c', h', m', k')"
    unfolding DLAS_performMove_def by (auto dest!: bindE_Inr simp: Let_def)
  have "isCNP g2" using 2 by (rule isCNP_randomSelect)
  then have "isCNP g3" using isCNP_removeNode[OF 3] by simp
  then have "isCNP g4" using isCNP_greedy[OF 4] by simp
  then have "- (2 ^ 31) \<le> Graph_getObjectiveValue (addBack a n g4)"
    by (intro isCNP_objective_lower) simp
  then show ?thesis using DLAS_settle_obj[OF 5] by auto
qed

function DLAS_loop :: "int \<Rightarrow> Graph \<times> int \<times> Solution \<times> int \<times> int \<times> int \<times> int list \<times> int \<times> int
      \<Rightarrow> error + (SearchResult \<times> Graph)" where
  "DLAS_loop maxIdleSteps (currentGraph, currentObjValue, bestSolution, bestObjValue, numIdleSteps, numSteps,
                           historyCost, maxCost, numMaxCost) =
     (if numIdleSteps < maxIdleSteps then
        (case DLAS_performMove currentGraph currentObjValue historyCost maxCost numMaxCost (numSteps + 1) of
           Inl e \<Rightarrow> Inl e
         | Inr (g', cur', historyCost', maxCost', numMaxCost') \<Rightarrow>
             if cur' < bestObjValue
             then DLAS_loop maxIdleSteps (g', cur', Graph_getRemovedNodes g', cur', 0, numSteps + 1,
                                          historyCost', maxCost', numMaxCost')
             else DLAS_loop maxIdleSteps (g', cur', bestSolution, bestObjValue, numIdleSteps + 1, numSteps + 1,
                                          historyCost', maxCost', numMaxCost'))
      else Inr (\<lparr>solution = bestSolution, objValue = bestObjValue\<rparr>, currentGraph))"
  by pat_completeness auto

termination DLAS_loop
proof (relation "measures [\<lambda>(m, g, cur, bs, bo, idle, steps, h, mx, k). nat (bo - min cur (- (2 ^ 31))),
                           \<lambda>(m, g, cur, bs, bo, idle, steps, h, mx, k). nat (m - idle)]", goal_cases)
  case 1
  show ?case by simp
next
  case (2 maxIdleSteps currentGraph currentObjValue bestSolution bestObjValue numIdleSteps numSteps
          historyCost maxCost numMaxCost x2 g' y cur' z historyCost' w maxCost' numMaxCost')
  then have "DLAS_performMove currentGraph currentObjValue historyCost maxCost numMaxCost (numSteps + 1)
               = Inr (g', cur', historyCost', maxCost', numMaxCost')" by simp
  then have "cur' = currentObjValue \<or> - (2 ^ 31) \<le> cur'"
    by (rule DLAS_performMove_obj)
  then show ?case using 2 by auto
next
  case (3 maxIdleSteps currentGraph currentObjValue bestSolution bestObjValue numIdleSteps numSteps
          historyCost maxCost numMaxCost x2 g' y cur' z historyCost' w maxCost' numMaxCost')
  then have "DLAS_performMove currentGraph currentObjValue historyCost maxCost numMaxCost (numSteps + 1)
               = Inr (g', cur', historyCost', maxCost', numMaxCost')" by simp
  then have "cur' = currentObjValue \<or> - (2 ^ 31) \<le> cur'"
    by (rule DLAS_performMove_obj)
  then show ?case using 3 by auto
qed


definition CBNS_execute :: "int \<Rightarrow> Graph \<Rightarrow> error + (SearchResult \<times> Graph)" where
  "CBNS_execute maxIdleSteps g =
     CBNS_loop maxIdleSteps
       (g, Graph_getObjectiveValue g, Graph_getRemovedNodes g, Graph_getObjectiveValue g, 0, 0)"

definition CHNS_execute :: "int \<Rightarrow> real \<Rightarrow> RandomNumberGenerator \<Rightarrow> Graph \<Rightarrow> error + (SearchResult \<times> Graph)" where
  "CHNS_execute maxIdleSteps theta srng g =
     CHNS_loop maxIdleSteps theta
       (g, srng, Graph_getObjectiveValue g, Graph_getRemovedNodes g, Graph_getObjectiveValue g, 0, 0)"

definition DLAS_execute :: "int \<Rightarrow> int \<Rightarrow> Graph \<Rightarrow> error + (SearchResult \<times> Graph)" where
  "DLAS_execute maxIdleSteps historyLength g =
     DLAS_loop maxIdleSteps
       (g, Graph_getObjectiveValue g, Graph_getRemovedNodes g, Graph_getObjectiveValue g, 0, 0,
        replicate (nat historyLength) (Graph_getObjectiveValue g), Graph_getObjectiveValue g, historyLength)"

section \<open>Example graphs\<close>

text \<open>The path \<open>0 - 1 - 2\<close> with nothing removed, after a full rebuild.\<close>

definition path3 :: CNP_Graph where
  "path3 = updateGraphByRemovedNodes [] (CNP_Graph_new [0, 1, 2] [[1], [0, 2], [1]] 1 (\<lambda>_. 0) 0)"


text \<open>The same path as a DCNP engine with hop limit 2, and engines of two and of one
  isolated vertices, all freshly constructed.\<close>

definition path3D :: DCNP_Graph where
  "path3D = DCNP_Graph_new [0, 1, 2] 2 [[1], [0, 2], [1]] 1 (\<lambda>_. 0)"

definition isolated2D :: DCNP_Graph where
  "isolated2D = DCNP_Graph_new [0, 1] 1 [[], []] 1 (\<lambda>_. 0)"

definition isolated1D :: DCNP_Graph where
  "isolated1D = DCNP_Graph_new [0] 1 [[]] 1 (\<lambda>_. 0)"

text \<open>\<open>clone\<close> copies the engine; the \<open>static\<close> betweenness buffer is not part of it.\<close>

definition cloneD :: "DCNP_Graph \<Rightarrow> DCNP_Graph" where
  "cloneD g = g"

text \<open>The path \<open>0 - 1 - 2 - 3 - 4\<close> with vertex 0 removed: one component of four
  vertices, objective 6.\<close>

definition path5 :: CNP_Graph where
  "path5 = updateGraphByRemovedNodes [0]
             (CNP_Graph_new [0, 1, 2, 3, 4] [[1], [0, 2], [1, 3], [2, 4], [3]] 1 (\<lambda>_. 0) 0)"

text \<open>What a DLAS move leaves behind, with the graph reduced to its removed set.\<close>

definition observe :: "error + (Graph \<times> int \<times> int list \<times> int \<times> int)
      \<Rightarrow> error + (NodeSet \<times> int \<times> int list \<times> int \<times> int)" where
  "observe r = map_sum id (\<lambda>(g, c, h, m, k). (Graph_getRemovedNodes g, c, h, m, k)) r"


section \<open>Verification of the CNP engine\<close>

subsection \<open>Basic facts about the depth-first search\<close>

lemma dfs_loop_distinct:
  "distinct cnodes \<Longrightarrow> distinct (dfs_loop adj removed stack cnodes)"
  by (induction adj removed stack cnodes rule: dfs_loop.induct) auto

lemma find_other:
  assumes "distinct xs" "v \<in> set xs" "length xs > 1"
  shows "\<exists>s. find (\<lambda>node. node \<noteq> v) xs = Some s"
proof -
  have "\<exists>x \<in> set xs. x \<noteq> v"
  proof (rule ccontr)
    assume "\<not> ?thesis"
    then have "set xs \<subseteq> {v}" by blast
    with assms(2) have "set xs = {v}" by blast
    then have "card (set xs) = 1" by simp
    with assms show False by (simp add: distinct_card)
  qed
  then have "find (\<lambda>node. node \<noteq> v) xs \<noteq> None"
    unfolding find_None_iff by blast
  then show ?thesis by auto
qed

lemma sint_sub_nat_wrap:
  fixes w :: "32 word"
  shows "sint (w - of_nat k) = signed_take_bit 31 (sint w - int k)"
proof -
  have "sint (w - of_nat k) = signed_take_bit 31 (sint w - sint (of_nat k :: 32 word))"
    by (simp add: sint_word_ariths)
  also have "sint (of_nat k :: 32 word) = signed_take_bit 31 (int k)"
    by (simp add: signed_of_nat)
  also have "sint w = signed_take_bit 31 (sint w)"
  proof -
    have "- (2 ^ 31) \<le> sint w" "sint w < 2 ^ 31" using sint_ge[of w] sint_lt[of w] by simp_all
    then show ?thesis by (simp add: signed_take_bit_int_eq_self)
  qed
  also have "signed_take_bit 31 (signed_take_bit 31 (sint w) - signed_take_bit 31 (int k))
           = signed_take_bit 31 (sint w - int k)"
    by (rule signed_take_bit_diff)
  finally show ?thesis by simp
qed

lemma sint_sub_nat_exact:
  fixes w :: "32 word"
  assumes "- (2 ^ 31) \<le> sint w - int k"
  shows "signed_take_bit 31 (sint w - int k) = sint w - int k"
proof -
  have up: "sint w < 2 ^ 31" using sint_lt[of w] by simp
  show ?thesis using assms up by (intro signed_take_bit_int_eq_self) auto
qed

lemma dfsFindComponent_cong:
  "currentAdjList g' = currentAdjList g \<Longrightarrow> removedNodes g' = removedNodes g
     \<Longrightarrow> dfsFindComponent g' s = dfsFindComponent g s"
  by (simp add: dfsFindComponent_def)

lemma dfsFindComponent_size: "size' (dfsFindComponent g s) = length (nodes (dfsFindComponent g s))"
  by (simp add: dfsFindComponent_def Let_def)

lemma dfsFindComponent_distinct: "distinct (nodes (dfsFindComponent g s))"
  by (simp add: dfsFindComponent_def Let_def dfs_loop_distinct)



subsection \<open>The search finds the component\<close>

definition Edges :: "NodeSet list \<Rightarrow> NodeSet \<Rightarrow> (Node \<times> Node) set" where
  "Edges adj removed = {(x, y). x \<notin> set removed \<and> y \<notin> set removed \<and> y \<in> set (adjRow adj x)}"

lemma dfs_loop_mono: "set cnodes \<subseteq> set (dfs_loop adj removed stack cnodes)"
  by (induction adj removed stack cnodes rule: dfs_loop.induct) auto

lemma dfs_loop_stack:
  "x \<in> set stack \<Longrightarrow> x \<notin> set removed \<Longrightarrow> x \<in> set (dfs_loop adj removed stack cnodes)"
proof (induction adj removed stack cnodes rule: dfs_loop.induct)
  case (1 adj removed cnodes)
  then show ?case by simp
next
  case (2 adj removed node stack cnodes)
  show ?case
  proof (cases "node \<in> set cnodes \<or> node \<in> set removed")
    case True
    show ?thesis
    proof (cases "x = node")
      case True
      with \<open>node \<in> set cnodes \<or> node \<in> set removed\<close> 2(4) have "x \<in> set cnodes" by auto
      then show ?thesis using dfs_loop_mono by blast
    next
      case False
      with True 2 show ?thesis by auto
    qed
  next
    case False
    show ?thesis
    proof (cases "x = node")
      case True
      have "node \<in> set (cnodes @ [node])" by simp
      then show ?thesis using False True dfs_loop_mono[of "cnodes @ [node]"] by auto
    next
      case xn: False
      with False 2 show ?thesis by auto
    qed
  qed
qed

lemma dfs_loop_closed:
  assumes "\<forall>x \<in> set cnodes. \<forall>y. (x, y) \<in> Edges adj removed \<longrightarrow> y \<in> set cnodes \<union> set stack"
  shows "\<forall>x \<in> set (dfs_loop adj removed stack cnodes). \<forall>y. (x, y) \<in> Edges adj removed
            \<longrightarrow> y \<in> set (dfs_loop adj removed stack cnodes)"
  using assms
proof (induction adj removed stack cnodes rule: dfs_loop.induct)
  case (1 adj removed cnodes)
  then show ?case by simp
next
  case (2 adj removed node stack cnodes)
  show ?case
  proof (cases "node \<in> set cnodes \<or> node \<in> set removed")
    case True
    have "\<forall>x\<in>set cnodes. \<forall>y. (x, y) \<in> Edges adj removed \<longrightarrow> y \<in> set cnodes \<union> set stack"
      using 2(3) True by (auto simp: Edges_def)
    then show ?thesis using 2(1) True by simp
  next
    case False
    let ?push = "rev (filter (\<lambda>neighbor. neighbor \<notin> set (cnodes @ [node]) \<and> neighbor \<notin> set removed)
                     (adjRow adj node))"
    have "\<forall>x\<in>set (cnodes @ [node]). \<forall>y. (x, y) \<in> Edges adj removed
             \<longrightarrow> y \<in> set (cnodes @ [node]) \<union> set (?push @ stack)"
      using 2(3) by (auto simp: Edges_def)
    then show ?thesis using 2(2) False by simp
  qed
qed

lemma dfs_loop_sound:
  "set (dfs_loop adj removed stack cnodes)
     \<subseteq> set cnodes \<union> (Edges adj removed)\<^sup>* `` (set stack - set removed)"
proof (induction adj removed stack cnodes rule: dfs_loop.induct)
  case (1 adj removed cnodes)
  then show ?case by simp
next
  case (2 adj removed node stack cnodes)
  show ?case
  proof (cases "node \<in> set cnodes \<or> node \<in> set removed")
    case True
    then show ?thesis using 2(1) by auto
  next
    case False
    let ?push = "rev (filter (\<lambda>neighbor. neighbor \<notin> set (cnodes @ [node]) \<and> neighbor \<notin> set removed)
                     (adjRow adj node))"
    let ?E = "Edges adj removed"
    have push: "set ?push \<subseteq> ?E `` {node}" using False by (auto simp: Edges_def)
    have "set (dfs_loop adj removed (?push @ stack) (cnodes @ [node]))
            \<subseteq> set (cnodes @ [node]) \<union> ?E\<^sup>* `` (set (?push @ stack) - set removed)"
      using 2(2) False by simp
    also have "\<dots> \<subseteq> set cnodes \<union> ?E\<^sup>* `` (set (node # stack) - set removed)"
    proof -
      have "?E\<^sup>* `` (set ?push - set removed) \<subseteq> ?E\<^sup>* `` {node}"
        using push by (auto intro: converse_rtrancl_into_rtrancl)
      moreover have "node \<in> ?E\<^sup>* `` {node}" by simp
      ultimately show ?thesis using False by auto
    qed
    finally show ?thesis using False by simp
  qed
qed

lemma dfs_loop_removed:
  "set cnodes \<inter> set removed = {} \<Longrightarrow> set (dfs_loop adj removed stack cnodes) \<inter> set removed = {}"
  by (induction adj removed stack cnodes rule: dfs_loop.induct) auto

theorem dfs_loop_reach:
  assumes "s \<notin> set removed"
  shows "set (dfs_loop adj removed [s] []) = (Edges adj removed)\<^sup>* `` {s}"
proof
  show "set (dfs_loop adj removed [s] []) \<subseteq> (Edges adj removed)\<^sup>* `` {s}"
    using dfs_loop_sound[of adj removed "[s]" "[]"] assms by auto
next
  let ?R = "set (dfs_loop adj removed [s] [])"
  have s: "s \<in> ?R" using dfs_loop_stack[of s "[s]" removed adj "[]"] assms by simp
  have cl: "\<forall>x \<in> ?R. \<forall>y. (x, y) \<in> Edges adj removed \<longrightarrow> y \<in> ?R"
    by (rule dfs_loop_closed) simp
  have "y \<in> ?R" if "(s, y) \<in> (Edges adj removed)\<^sup>*" for y
    using that by (induction rule: rtrancl_induct) (use s cl in auto)
  then show "(Edges adj removed)\<^sup>* `` {s} \<subseteq> ?R" by auto
qed


text \<open>Graph-theoretic facts: restricting a symmetric relation away from one vertex.\<close>

lemma Edges_sym:
  assumes "\<And>x y. y \<in> set (adjRow adj x) \<Longrightarrow> x \<in> set (adjRow adj y)"
  shows "sym (Edges adj removed)"
  using assms by (auto simp: sym_def Edges_def)

lemma sym_reach_eq:
  assumes "sym E" "(x, y) \<in> E\<^sup>*"
  shows "E\<^sup>* `` {y} = E\<^sup>* `` {x}"
proof -
  have "(y, x) \<in> E\<^sup>*" using assms by (metis sym_rtrancl symD)
  then show ?thesis using assms(2) by (auto intro: rtrancl_trans)
qed

lemma sym_reach_disjoint:
  assumes "sym E" "z \<in> E\<^sup>* `` {x}" "z \<in> E\<^sup>* `` {y}"
  shows "E\<^sup>* `` {x} = E\<^sup>* `` {y}"
  using assms sym_reach_eq by (metis Image_singleton_iff)

text \<open>\<open>E'\<close> is \<open>E\<close> without the edges at \<open>v\<close>.\<close>

lemma reach_outside:
  assumes sub: "E' \<subseteq> E" and diff: "\<And>a b. (a, b) \<in> E \<Longrightarrow> a \<noteq> v \<Longrightarrow> b \<noteq> v \<Longrightarrow> (a, b) \<in> E'"
    and "sym E" and x: "x \<notin> E\<^sup>* `` {v}"
  shows "E'\<^sup>* `` {x} = E\<^sup>* `` {x}"
proof
  show "E'\<^sup>* `` {x} \<subseteq> E\<^sup>* `` {x}" using sub rtrancl_mono by blast
next
  have nv: "v \<notin> E\<^sup>* `` {x}"
  proof
    assume "v \<in> E\<^sup>* `` {x}"
    then have "(x, v) \<in> E\<^sup>*" by simp
    then have "(v, x) \<in> E\<^sup>*" using \<open>sym E\<close> by (metis sym_rtrancl symD)
    then show False using x by simp
  qed
  have "(x, y) \<in> E'\<^sup>*" if "(x, y) \<in> E\<^sup>*" for y
    using that
  proof (induction rule: rtrancl_induct)
    case base
    then show ?case by simp
  next
    case (step y z)
    have "y \<noteq> v" using step(1) nv by auto
    moreover have "z \<noteq> v" using step(1,2) nv by (auto intro: rtrancl_into_rtrancl)
    ultimately have "(y, z) \<in> E'" using diff step(2) by blast
    then show ?case using step(3) by (auto intro: rtrancl_into_rtrancl)
  qed
  then show "E\<^sup>* `` {x} \<subseteq> E'\<^sup>* `` {x}" by auto
qed

lemma reach_inside:
  assumes sub: "E' \<subseteq> E" and nov: "\<And>a b. (a, b) \<in> E' \<Longrightarrow> a \<noteq> v \<and> b \<noteq> v"
    and "sym E" and x: "x \<in> E\<^sup>* `` {v}" "x \<noteq> v"
  shows "E'\<^sup>* `` {x} \<subseteq> E\<^sup>* `` {v} - {v}"
proof
  fix y assume "y \<in> E'\<^sup>* `` {x}"
  then have xy: "(x, y) \<in> E'\<^sup>*" by simp
  then have "(x, y) \<in> E\<^sup>*" using sub rtrancl_mono by blast
  then have "(v, y) \<in> E\<^sup>*" using x(1) by (auto intro: rtrancl_trans)
  moreover have "y \<noteq> v"
    using xy x(2) by (induction rule: rtrancl_induct) (use nov in auto)
  ultimately show "y \<in> E\<^sup>* `` {v} - {v}" by simp
qed


definition wf_adj :: "nat \<Rightarrow> NodeSet list \<Rightarrow> bool" where
  "wf_adj n adj \<longleftrightarrow> length adj = n \<and>
     (\<forall>v<n. distinct (adj ! v) \<and> v \<notin> set (adj ! v) \<and> (\<forall>u \<in> set (adj ! v). u < n \<and> v \<in> set (adj ! u)))"

definition adj_inv :: "CNP_Graph \<Rightarrow> bool" where
  "adj_inv g \<longleftrightarrow> wf_adj (numNodes g) (originalAdjList g)
     \<and> distinct (originalNodesSet g) \<and> set (originalNodesSet g) = {0..<numNodes g}
     \<and> distinct (removedNodes g) \<and> set (removedNodes g) \<subseteq> {0..<numNodes g}
     \<and> length (currentAdjList g) = numNodes g
     \<and> length (nodeToComponentIndex g) = numNodes g
     \<and> (\<forall>v<numNodes g. distinct (currentAdjList g ! v)
           \<and> set (currentAdjList g ! v)
               = (if v \<in> set (removedNodes g) then {} else set (originalAdjList g ! v) - set (removedNodes g)))"

definition GE :: "CNP_Graph \<Rightarrow> (Node \<times> Node) set" where
  "GE g = Edges (originalAdjList g) (removedNodes g)"

definition component_ok :: "CNP_Graph \<Rightarrow> nat \<Rightarrow> bool" where
  "component_ok g i \<longleftrightarrow>
     size' (connectedComponents g ! i) = length (nodes (connectedComponents g ! i))
   \<and> distinct (nodes (connectedComponents g ! i))
   \<and> nodes (connectedComponents g ! i) \<noteq> []
   \<and> (\<forall>x \<in> set (nodes (connectedComponents g ! i)).
         x < numNodes g \<and> x \<notin> set (removedNodes g) \<and> nodeToComponentIndex g ! x = int i
         \<and> set (nodes (connectedComponents g ! i)) = (GE g)\<^sup>* `` {x})"

definition pairSum :: "Component list \<Rightarrow> nat" where
  "pairSum comps = sum_list (map (\<lambda>c. pairsOf (size' c)) comps)"

definition comps_inv :: "Node set \<Rightarrow> CNP_Graph \<Rightarrow> bool" where
  "comps_inv U g \<longleftrightarrow>
     (\<forall>v<numNodes g. v \<in> set (removedNodes g) \<longrightarrow> nodeToComponentIndex g ! v = -1)
   \<and> (\<forall>v<numNodes g. v \<notin> set (removedNodes g) \<longrightarrow> v \<notin> U \<longrightarrow>
         0 \<le> nodeToComponentIndex g ! v
       \<and> nat (nodeToComponentIndex g ! v) < length (connectedComponents g)
       \<and> v \<in> set (nodes (connectedComponents g ! nat (nodeToComponentIndex g ! v))))
   \<and> (\<forall>i<length (connectedComponents g). component_ok g i)
   \<and> connectedPairs g = of_nat (pairSum (connectedComponents g))"

definition CNP_inv :: "CNP_Graph \<Rightarrow> bool" where
  "CNP_inv g \<longleftrightarrow> adj_inv g \<and> comps_inv {} g"

lemma adjRow_nth: "v < length adj \<Longrightarrow> adjRow adj v = adj ! v"
  by (simp add: adjRow_def)

lemma adj_inv_Edges:
  assumes "adj_inv g"
  shows "Edges (currentAdjList g) (removedNodes g) = GE g"
proof -
  have len: "length (currentAdjList g) = numNodes g" "length (originalAdjList g) = numNodes g"
    using assms by (simp_all add: adj_inv_def wf_adj_def)
  have rows: "\<And>v. v < numNodes g \<Longrightarrow> v \<notin> set (removedNodes g) \<Longrightarrow>
     set (currentAdjList g ! v) = set (originalAdjList g ! v) - set (removedNodes g)"
    using assms by (simp add: adj_inv_def)
  show ?thesis
    unfolding GE_def Edges_def adjRow_def using len rows by auto
qed

lemma wf_adjD:
  assumes "wf_adj n adj" "v < n" "u \<in> set (adj ! v)"
  shows "u < n" "v \<in> set (adj ! u)" "u \<noteq> v"
proof -
  from assms(1,2) have row: "v \<notin> set (adj ! v)" "\<forall>u \<in> set (adj ! v). u < n \<and> v \<in> set (adj ! u)"
    unfolding wf_adj_def by blast+
  from row(2) assms(3) show "u < n" "v \<in> set (adj ! u)" by blast+
  from row(1) assms(3) show "u \<noteq> v" by blast
qed

lemma adj_invD:
  assumes "adj_inv g"
  shows "wf_adj (numNodes g) (originalAdjList g)" "length (originalAdjList g) = numNodes g"
    "length (currentAdjList g) = numNodes g" "length (nodeToComponentIndex g) = numNodes g"
    "distinct (removedNodes g)" "set (removedNodes g) \<subseteq> {0..<numNodes g}"
    "distinct (originalNodesSet g)" "set (originalNodesSet g) = {0..<numNodes g}"
  using assms unfolding adj_inv_def wf_adj_def by blast+

lemma adj_inv_row:
  assumes "adj_inv g" "v < numNodes g"
  shows "distinct (currentAdjList g ! v)"
    "set (currentAdjList g ! v)
       = (if v \<in> set (removedNodes g) then {} else set (originalAdjList g ! v) - set (removedNodes g))"
  using assms unfolding adj_inv_def by blast+

lemma GE_iff:
  assumes "adj_inv g"
  shows "(x, y) \<in> GE g \<longleftrightarrow>
     x < numNodes g \<and> x \<notin> set (removedNodes g) \<and> y \<notin> set (removedNodes g) \<and> y \<in> set (originalAdjList g ! x)"
  using adj_invD(2)[OF assms] by (auto simp: GE_def Edges_def adjRow_def)

lemma GE_bound:
  assumes "adj_inv g" "(x, y) \<in> GE g"
  shows "x < numNodes g \<and> y < numNodes g \<and> x \<notin> set (removedNodes g) \<and> y \<notin> set (removedNodes g)
         \<and> y \<in> set (originalAdjList g ! x) \<and> x \<noteq> y"
proof -
  from assms have b: "x < numNodes g" "x \<notin> set (removedNodes g)" "y \<notin> set (removedNodes g)"
    "y \<in> set (originalAdjList g ! x)"
    by (simp_all add: GE_iff)
  from wf_adjD[OF adj_invD(1)[OF assms(1)] b(1) b(4)] b show ?thesis by blast
qed

lemma GE_sym: assumes "adj_inv g" shows "sym (GE g)"
  unfolding sym_def
proof (intro allI impI)
  fix x y assume xy: "(x, y) \<in> GE g"
  from GE_bound[OF assms xy] have b: "x < numNodes g" "y < numNodes g"
     "x \<notin> set (removedNodes g)" "y \<notin> set (removedNodes g)" "y \<in> set (originalAdjList g ! x)"
    by simp_all
  from wf_adjD(2)[OF adj_invD(1)[OF assms] b(1) b(5)] have "x \<in> set (originalAdjList g ! y)" .
  then show "(y, x) \<in> GE g"
    using b by (simp add: GE_iff[OF assms])
qed

lemma GE_reach_bound:
  assumes "adj_inv g" "y \<in> (GE g)\<^sup>* `` {x}" "x < numNodes g" "x \<notin> set (removedNodes g)"
  shows "y < numNodes g \<and> y \<notin> set (removedNodes g)"
proof -
  from assms(2) have "(x, y) \<in> (GE g)\<^sup>*" by simp
  then show ?thesis
    by (induction rule: rtrancl_induct) (use assms GE_bound in auto)
qed

lemma dfsFindComponent_reach:
  assumes "adj_inv g" "x \<notin> set (removedNodes g)"
  shows "set (nodes (dfsFindComponent g x)) = (GE g)\<^sup>* `` {x}"
  using dfs_loop_reach[OF assms(2), of "currentAdjList g"] adj_inv_Edges[OF assms(1)]
  by (simp add: dfsFindComponent_def Let_def)

lemma dfsFindComponent_nonempty:
  assumes "adj_inv g" "x \<notin> set (removedNodes g)"
  shows "nodes (dfsFindComponent g x) \<noteq> []"
  using dfsFindComponent_reach[OF assms] by (metis Image_singleton_iff empty_iff list.set(1) rtrancl.rtrancl_refl)

text \<open>Erasing one vertex from the rows of a list of neighbours.\<close>

lemma erase_rows_length:
  "length (fold (\<lambda>nb c. c[nb := NodeSet_erase x (c ! nb)]) nbs c) = length c"
  by (induction nbs arbitrary: c) simp_all

lemma erase_rows_nth:
  "u < length c \<Longrightarrow>
   fold (\<lambda>nb c. c[nb := NodeSet_erase x (c ! nb)]) nbs c ! u
     = (if u \<in> set nbs then removeAll x (c ! u) else c ! u)"
proof (induction nbs arbitrary: c)
  case Nil
  then show ?case by simp
next
  case (Cons nb nbs)
  show ?case
  proof (cases "u = nb")
    case True
    then show ?thesis using Cons by (simp add: NodeSet_erase_def)
  next
    case False
    then show ?thesis using Cons by simp
  qed
qed

lemma detachNode_adj_inv:
  assumes inv: "adj_inv g" and v: "v < numNodes g" "v \<notin> set (removedNodes g)"
  shows "adj_inv (detachNode v g)"
proof -
  let ?n = "numNodes g" and ?R = "set (removedNodes g)"
  let ?cur = "currentAdjList g" and ?orig = "originalAdjList g"
  let ?c1 = "fold (\<lambda>neighbor c. c[neighbor := NodeSet_erase v (c ! neighbor)]) (adjRow ?cur v) ?cur"
  have len: "length ?cur = ?n" "length ?orig = ?n" using inv by (simp_all add: adj_inv_def wf_adj_def)
  have rowv: "adjRow ?cur v = ?cur ! v" using len v by (simp add: adjRow_def)
  have cur: "\<And>u. u < ?n \<Longrightarrow> distinct (?cur ! u) \<and>
       set (?cur ! u) = (if u \<in> ?R then {} else set (?orig ! u) - ?R)"
    using inv by (simp add: adj_inv_def)
  have wf: "wf_adj ?n ?orig" using inv by (simp add: adj_inv_def)
  have row: "distinct ((?c1[v := []]) ! u) \<and>
       set ((?c1[v := []]) ! u) = (if u \<in> insert v ?R then {} else set (?orig ! u) - insert v ?R)"
    if u: "u < ?n" for u
  proof (cases "u = v")
    case True
    then show ?thesis using u len by (simp add: erase_rows_length)
  next
    case False
    have nth: "(?c1[v := []]) ! u = (if u \<in> set (?cur ! v) then removeAll v (?cur ! u) else ?cur ! u)"
      using False u len rowv by (simp add: erase_rows_nth)
    have notin: "v \<notin> set (?cur ! u)" if "u \<notin> set (?cur ! v)"
    proof
      assume "v \<in> set (?cur ! u)"
      then have "u \<notin> ?R" "v \<in> set (?orig ! u)" using cur[OF u] by (auto split: if_splits)
      then have "u \<in> set (?orig ! v)" using wf u unfolding wf_adj_def by blast
      then have "u \<in> set (?cur ! v)" using cur[OF v(1)] v(2) \<open>u \<notin> ?R\<close> by simp
      then show False using that by simp
    qed
    have "set ((?c1[v := []]) ! u) = set (?cur ! u) - {v}"
      using nth notin by auto
    moreover have "distinct ((?c1[v := []]) ! u)"
      using nth cur[OF u] by (simp add: distinct_removeAll)
    ultimately show ?thesis using cur[OF u] False by auto
  qed
  show ?thesis
    unfolding adj_inv_def
    using inv v row len
    by (simp add: detachNode_def adj_inv_def NodeSet_insert_def erase_rows_length)
qed

lemma detachNode_fields [simp]:
  "numNodes (detachNode v g) = numNodes g"
  "originalAdjList (detachNode v g) = originalAdjList g"
  "originalNodesSet (detachNode v g) = originalNodesSet g"
  "connectedComponents (detachNode v g) = connectedComponents g"
  "connectedPairs (detachNode v g) = connectedPairs g"
  "nodeToComponentIndex (detachNode v g) = (nodeToComponentIndex g)[v := -1]"
  "removedNodes (detachNode v g) = NodeSet_insert v (removedNodes g)"
  "rng (detachNode v g) = rng g"
  "nodeAge (detachNode v g) = nodeAge g"
  by (simp_all add: detachNode_def)

lemma GE_detach:
  assumes "v \<notin> set (removedNodes g)"
  shows "GE (detachNode v g) = {(a, b). (a, b) \<in> GE g \<and> a \<noteq> v \<and> b \<noteq> v}"
  using assms by (auto simp: GE_def Edges_def NodeSet_insert_def)


lemma assignIndex_length [simp]: "length (assignIndex ns idx m) = length m"
  unfolding assignIndex_def by (induction ns arbitrary: m) simp_all

lemma assignIndex_nth:
  "y < length m \<Longrightarrow> assignIndex ns idx m ! y = (if y \<in> set ns then idx else m ! y)"
  unfolding assignIndex_def
proof (induction ns arbitrary: m)
  case Nil
  then show ?case by simp
next
  case (Cons a ns)
  show ?case
  proof (cases "y = a")
    case True
    then show ?thesis using Cons by simp
  next
    case False
    then show ?thesis using Cons by simp
  qed
qed

definition pending :: "Node set \<Rightarrow> CNP_Graph \<Rightarrow> bool" where
  "pending U g \<longleftrightarrow> U \<subseteq> {0..<numNodes g} - set (removedNodes g)
     \<and> (\<forall>x \<in> U. (GE g)\<^sup>* `` {x} \<subseteq> U)
     \<and> (\<forall>i<length (connectedComponents g). set (nodes (connectedComponents g ! i)) \<inter> U = {})"

definition discover :: "Node \<Rightarrow> CNP_Graph \<Rightarrow> CNP_Graph" where
  "discover node g =
     g\<lparr>connectedComponents := connectedComponents g @ [dfsFindComponent g node],
       connectedPairs := connectedPairs g + of_nat (pairsOf (size' (dfsFindComponent g node))),
       nodeToComponentIndex := assignIndex (nodes (dfsFindComponent g node))
                                 (int (length (connectedComponents g))) (nodeToComponentIndex g)\<rparr>"

lemma comps_invD:
  assumes "comps_inv U g"
  shows "\<And>v. v < numNodes g \<Longrightarrow> v \<in> set (removedNodes g) \<Longrightarrow> nodeToComponentIndex g ! v = -1"
    "\<And>v. v < numNodes g \<Longrightarrow> v \<notin> set (removedNodes g) \<Longrightarrow> v \<notin> U \<Longrightarrow>
         0 \<le> nodeToComponentIndex g ! v
       \<and> nat (nodeToComponentIndex g ! v) < length (connectedComponents g)
       \<and> v \<in> set (nodes (connectedComponents g ! nat (nodeToComponentIndex g ! v)))"
    "\<And>i. i < length (connectedComponents g) \<Longrightarrow> component_ok g i"
    "connectedPairs g = of_nat (pairSum (connectedComponents g))"
  using assms unfolding comps_inv_def by blast+

lemma component_okD:
  assumes "component_ok g i"
  shows "size' (connectedComponents g ! i) = length (nodes (connectedComponents g ! i))"
    "distinct (nodes (connectedComponents g ! i))"
    "nodes (connectedComponents g ! i) \<noteq> []"
    "\<And>x. x \<in> set (nodes (connectedComponents g ! i)) \<Longrightarrow>
         x < numNodes g \<and> x \<notin> set (removedNodes g) \<and> nodeToComponentIndex g ! x = int i
         \<and> set (nodes (connectedComponents g ! i)) = (GE g)\<^sup>* `` {x}"
  using assms unfolding component_ok_def by blast+

lemma pendingD:
  assumes "pending U g"
  shows "\<And>x. x \<in> U \<Longrightarrow> x < numNodes g \<and> x \<notin> set (removedNodes g)"
    "\<And>x. x \<in> U \<Longrightarrow> (GE g)\<^sup>* `` {x} \<subseteq> U"
    "\<And>i x. i < length (connectedComponents g) \<Longrightarrow> x \<in> set (nodes (connectedComponents g ! i)) \<Longrightarrow> x \<notin> U"
  using assms unfolding pending_def by auto

lemma pairSum_append [simp]: "pairSum (cs @ [c]) = pairSum cs + pairsOf (size' c)"
  by (simp add: pairSum_def)

lemma discover_fields [simp]:
  "numNodes (discover node g) = numNodes g"
  "originalAdjList (discover node g) = originalAdjList g"
  "currentAdjList (discover node g) = currentAdjList g"
  "originalNodesSet (discover node g) = originalNodesSet g"
  "removedNodes (discover node g) = removedNodes g"
  "rng (discover node g) = rng g"
  "GE (discover node g) = GE g"
  "length (nodeToComponentIndex (discover node g)) = length (nodeToComponentIndex g)"
  "connectedComponents (discover node g) = connectedComponents g @ [dfsFindComponent g node]"
  by (simp_all add: discover_def GE_def)

lemma discover_adj_inv: "adj_inv g \<Longrightarrow> adj_inv (discover node g)"
  unfolding adj_inv_def by simp

lemma component_okI:
  assumes "size' (connectedComponents g ! i) = length (nodes (connectedComponents g ! i))"
    "distinct (nodes (connectedComponents g ! i))"
    "nodes (connectedComponents g ! i) \<noteq> []"
    "\<And>x. x \<in> set (nodes (connectedComponents g ! i)) \<Longrightarrow>
         x < numNodes g \<and> x \<notin> set (removedNodes g) \<and> nodeToComponentIndex g ! x = int i
         \<and> set (nodes (connectedComponents g ! i)) = (GE g)\<^sup>* `` {x}"
  shows "component_ok g i"
  using assms unfolding component_ok_def by blast

lemma comps_invI:
  assumes "\<And>v. v < numNodes g \<Longrightarrow> v \<in> set (removedNodes g) \<Longrightarrow> nodeToComponentIndex g ! v = -1"
    "\<And>v. v < numNodes g \<Longrightarrow> v \<notin> set (removedNodes g) \<Longrightarrow> v \<notin> U \<Longrightarrow>
         0 \<le> nodeToComponentIndex g ! v
       \<and> nat (nodeToComponentIndex g ! v) < length (connectedComponents g)
       \<and> v \<in> set (nodes (connectedComponents g ! nat (nodeToComponentIndex g ! v)))"
    "\<And>i. i < length (connectedComponents g) \<Longrightarrow> component_ok g i"
    "connectedPairs g = of_nat (pairSum (connectedComponents g))"
  shows "comps_inv U g"
  using assms unfolding comps_inv_def by blast

lemma pendingI:
  assumes "\<And>x. x \<in> U \<Longrightarrow> x < numNodes g \<and> x \<notin> set (removedNodes g)"
    "\<And>x. x \<in> U \<Longrightarrow> (GE g)\<^sup>* `` {x} \<subseteq> U"
    "\<And>i x. i < length (connectedComponents g) \<Longrightarrow> x \<in> set (nodes (connectedComponents g ! i)) \<Longrightarrow> x \<notin> U"
  shows "pending U g"
  unfolding pending_def
proof (intro conjI)
  show "U \<subseteq> {0..<numNodes g} - set (removedNodes g)" using assms(1) by auto
  show "\<forall>x\<in>U. (GE g)\<^sup>* `` {x} \<subseteq> U" using assms(2) by blast
  show "\<forall>i<length (connectedComponents g). set (nodes (connectedComponents g ! i)) \<inter> U = {}"
    using assms(3) by blast
qed

lemma discover_inv:
  assumes adj: "adj_inv g" and ci: "comps_inv U g" and pe: "pending U g" and node: "node \<in> U"
  shows "comps_inv (U - (GE g)\<^sup>* `` {node}) (discover node g)"
    and "pending (U - (GE g)\<^sup>* `` {node}) (discover node g)"
proof -
  let ?g' = "discover node g"
  let ?c = "dfsFindComponent g node"
  let ?C = "(GE g)\<^sup>* `` {node}"
  let ?len = "length (connectedComponents g)"
  let ?ntc = "nodeToComponentIndex g"
  have nb: "node < numNodes g" "node \<notin> set (removedNodes g)" using pendingD(1)[OF pe node] by simp_all
  have setc: "set (nodes ?c) = ?C" using dfsFindComponent_reach[OF adj nb(2)] .
  have CU: "?C \<subseteq> U" using pendingD(2)[OF pe node] .
  have lenntc: "length ?ntc = numNodes g" using adj_invD(4)[OF adj] .
  have ntc': "nodeToComponentIndex ?g' ! y = (if y \<in> ?C then int ?len else ?ntc ! y)"
    if "y < numNodes g" for y
    using that lenntc setc by (simp add: discover_def assignIndex_nth)
  have sym: "sym (GE g)" using GE_sym[OF adj] .
  have old: "connectedComponents ?g' ! i = connectedComponents g ! i" if "i < ?len" for i
    using that by (simp add: nth_append)
  have new: "connectedComponents ?g' ! ?len = ?c" by simp
  have len': "length (connectedComponents ?g') = Suc ?len" by simp
  have comp_old: "component_ok ?g' i" if i: "i < ?len" for i
  proof (rule component_okI)
    have ok: "component_ok g i" using comps_invD(3)[OF ci i] .
    show "size' (connectedComponents ?g' ! i) = length (nodes (connectedComponents ?g' ! i))"
      using component_okD(1)[OF ok] old[OF i] by simp
    show "distinct (nodes (connectedComponents ?g' ! i))"
      using component_okD(2)[OF ok] old[OF i] by simp
    show "nodes (connectedComponents ?g' ! i) \<noteq> []"
      using component_okD(3)[OF ok] old[OF i] by simp
    fix x assume "x \<in> set (nodes (connectedComponents ?g' ! i))"
    then have x: "x \<in> set (nodes (connectedComponents g ! i))" using old[OF i] by simp
    have xU: "x \<notin> ?C" using pendingD(3)[OF pe i x] CU by blast
    have xo: "x < numNodes g" "x \<notin> set (removedNodes g)" "?ntc ! x = int i"
       "set (nodes (connectedComponents g ! i)) = (GE g)\<^sup>* `` {x}"
      using component_okD(4)[OF ok x] by simp_all
    show "x < numNodes ?g' \<and> x \<notin> set (removedNodes ?g') \<and> nodeToComponentIndex ?g' ! x = int i
         \<and> set (nodes (connectedComponents ?g' ! i)) = (GE ?g')\<^sup>* `` {x}"
      using xo xU ntc'[OF xo(1)] old[OF i] by simp
  qed
  have comp_new: "component_ok ?g' ?len"
  proof (rule component_okI)
    show "size' (connectedComponents ?g' ! ?len) = length (nodes (connectedComponents ?g' ! ?len))"
      using dfsFindComponent_size[of g node] by simp
    show "distinct (nodes (connectedComponents ?g' ! ?len))"
      using dfsFindComponent_distinct[of g node] by simp
    show "nodes (connectedComponents ?g' ! ?len) \<noteq> []"
      using dfsFindComponent_nonempty[OF adj nb(2)] by simp
    fix x assume "x \<in> set (nodes (connectedComponents ?g' ! ?len))"
    then have x: "x \<in> ?C" using setc by simp
    have xb: "x < numNodes g" "x \<notin> set (removedNodes g)"
      using GE_reach_bound[OF adj x nb] by simp_all
    have "(GE g)\<^sup>* `` {x} = ?C" using sym_reach_eq[OF sym] x by blast
    then show "x < numNodes ?g' \<and> x \<notin> set (removedNodes ?g') \<and> nodeToComponentIndex ?g' ! x = int ?len
         \<and> set (nodes (connectedComponents ?g' ! ?len)) = (GE ?g')\<^sup>* `` {x}"
      using xb x ntc'[OF xb(1)] setc by simp
  qed
  show "comps_inv (U - ?C) ?g'"
  proof (rule comps_invI)
    fix v assume v: "v < numNodes ?g'" "v \<in> set (removedNodes ?g')"
    then have "v \<notin> ?C" using CU pendingD(1)[OF pe, of v] by auto
    then show "nodeToComponentIndex ?g' ! v = -1"
      using v ntc'[of v] comps_invD(1)[OF ci, of v] by simp
  next
    fix v assume v: "v < numNodes ?g'" "v \<notin> set (removedNodes ?g')" "v \<notin> U - ?C"
    show "0 \<le> nodeToComponentIndex ?g' ! v
       \<and> nat (nodeToComponentIndex ?g' ! v) < length (connectedComponents ?g')
       \<and> v \<in> set (nodes (connectedComponents ?g' ! nat (nodeToComponentIndex ?g' ! v)))"
    proof (cases "v \<in> ?C")
      case True
      then show ?thesis using v(1) ntc'[of v] setc by simp
    next
      case False
      then have "v \<notin> U" using v(3) by simp
      then have o: "0 \<le> ?ntc ! v" "nat (?ntc ! v) < ?len"
         "v \<in> set (nodes (connectedComponents g ! nat (?ntc ! v)))"
        using comps_invD(2)[OF ci, of v] v by simp_all
      have "nodeToComponentIndex ?g' ! v = ?ntc ! v" using False v(1) ntc'[of v] by simp
      then show ?thesis using o old[OF o(2)] by simp
    qed
  next
    fix i assume "i < length (connectedComponents ?g')"
    then have "i < ?len \<or> i = ?len" using len' by linarith
    then show "component_ok ?g' i" using comp_old comp_new by blast
  next
    show "connectedPairs ?g' = of_nat (pairSum (connectedComponents ?g'))"
      using comps_invD(4)[OF ci] by (simp add: discover_def)
  qed
  show "pending (U - ?C) ?g'"
  proof (rule pendingI)
    fix x assume "x \<in> U - ?C"
    then show "x < numNodes ?g' \<and> x \<notin> set (removedNodes ?g')"
      using pendingD(1)[OF pe, of x] by simp
  next
    fix x assume x: "x \<in> U - ?C"
    have "(GE g)\<^sup>* `` {x} \<inter> ?C = {}"
    proof (rule ccontr)
      assume "(GE g)\<^sup>* `` {x} \<inter> ?C \<noteq> {}"
      then obtain z where "z \<in> (GE g)\<^sup>* `` {x}" "z \<in> ?C" by blast
      then have eq: "(GE g)\<^sup>* `` {x} = ?C"
        using sym_reach_disjoint[OF sym, of z x node] by simp
      have "x \<in> (GE g)\<^sup>* `` {x}" by simp
      then have "x \<in> ?C" unfolding eq .
      then show False using x by simp
    qed
    then show "(GE ?g')\<^sup>* `` {x} \<subseteq> U - ?C"
      using pendingD(2)[OF pe, of x] x by auto
  next
    fix i x assume i: "i < length (connectedComponents ?g')"
      and x: "x \<in> set (nodes (connectedComponents ?g' ! i))"
    from i have "i < ?len \<or> i = ?len" using len' by linarith
    then show "x \<notin> U - ?C"
    proof
      assume il: "i < ?len"
      then show ?thesis using pendingD(3)[OF pe il, of x] x old[OF il] by simp
    next
      assume "i = ?len"
      then show ?thesis using x setc by simp
    qed
  qed
qed


definition static_ok :: "CNP_Graph \<Rightarrow> bool" where
  "static_ok g \<longleftrightarrow> wf_adj (numNodes g) (originalAdjList g)
     \<and> distinct (originalNodesSet g) \<and> set (originalNodesSet g) = {0..<numNodes g}
     \<and> length (nodeToComponentIndex g) = numNodes g"

lemma adj_inv_static: "adj_inv g \<Longrightarrow> static_ok g"
  unfolding static_ok_def using adj_invD by blast

lemma adj_invI:
  assumes "static_ok g" "distinct (removedNodes g)" "set (removedNodes g) \<subseteq> {0..<numNodes g}"
    "length (currentAdjList g) = numNodes g"
    "\<And>v. v < numNodes g \<Longrightarrow> distinct (currentAdjList g ! v)
           \<and> set (currentAdjList g ! v)
               = (if v \<in> set (removedNodes g) then {} else set (originalAdjList g ! v) - set (removedNodes g))"
  shows "adj_inv g"
  using assms unfolding adj_inv_def static_ok_def by blast

lemma initComponentOf_skip:
  assumes "node \<in> vis \<or> node \<in> set (removedNodes g)"
  shows "initComponentOf node (g, vis, idx) = (g, vis, idx)"
  using assms by (auto simp: initComponentOf_def isNodeRemoved_def)

lemma initComponentOf_discover:
  assumes "node \<notin> vis" "node \<notin> set (removedNodes g)" "nodes (dfsFindComponent g node) \<noteq> []"
    "idx = int (length (connectedComponents g))"
  shows "initComponentOf node (g, vis, idx)
           = (discover node g, vis \<union> set (nodes (dfsFindComponent g node)), idx + 1)"
  using assms by (simp add: initComponentOf_def isNodeRemoved_def Let_def discover_def)

lemma init_fold:
  assumes "adj_inv g" "comps_inv U g" "pending U g"
    "U = ({0..<numNodes g} - set (removedNodes g)) - vis"
    "idx = int (length (connectedComponents g))" "U \<subseteq> set ns" "set ns \<subseteq> {0..<numNodes g}"
  shows "\<exists>g' vis' idx'. fold initComponentOf ns (g, vis, idx) = (g', vis', idx')
           \<and> adj_inv g' \<and> comps_inv {} g'
           \<and> removedNodes g' = removedNodes g \<and> currentAdjList g' = currentAdjList g
           \<and> originalAdjList g' = originalAdjList g \<and> numNodes g' = numNodes g
           \<and> originalNodesSet g' = originalNodesSet g \<and> rng g' = rng g
           \<and> nodeAge g' = nodeAge g \<and> numToRemove g' = numToRemove g"
  using assms
proof (induction ns arbitrary: g vis idx U)
  case Nil
  then have "U = {}" by simp
  then have "comps_inv {} g" using Nil.prems(2) by simp
  then show ?case using Nil.prems(1) by simp
next
  case (Cons node ns)
  show ?case
  proof (cases "node \<in> U")
    case True
    let ?C = "(GE g)\<^sup>* `` {node}"
    have nb: "node < numNodes g" "node \<notin> set (removedNodes g)" "node \<notin> vis"
      using True Cons.prems(4) by auto
    have setc: "set (nodes (dfsFindComponent g node)) = ?C"
      using dfsFindComponent_reach[OF Cons.prems(1) nb(2)] .
    have step: "initComponentOf node (g, vis, idx) = (discover node g, vis \<union> ?C, idx + 1)"
      using initComponentOf_discover[OF nb(3) nb(2) dfsFindComponent_nonempty[OF Cons.prems(1) nb(2)] Cons.prems(5)]
            setc by simp
    have nodeC: "node \<in> ?C" by simp
    have IH: "\<exists>g' vis' idx'. fold initComponentOf ns (discover node g, vis \<union> ?C, idx + 1) = (g', vis', idx')
           \<and> adj_inv g' \<and> comps_inv {} g'
           \<and> removedNodes g' = removedNodes (discover node g) \<and> currentAdjList g' = currentAdjList (discover node g)
           \<and> originalAdjList g' = originalAdjList (discover node g) \<and> numNodes g' = numNodes (discover node g)
           \<and> originalNodesSet g' = originalNodesSet (discover node g) \<and> rng g' = rng (discover node g)
           \<and> nodeAge g' = nodeAge (discover node g) \<and> numToRemove g' = numToRemove (discover node g)"
    proof (rule Cons.IH[where U = "U - ?C"])
      show "adj_inv (discover node g)" using discover_adj_inv[OF Cons.prems(1)] .
      show "comps_inv (U - ?C) (discover node g)"
        using discover_inv(1)[OF Cons.prems(1,2,3) True] .
      show "pending (U - ?C) (discover node g)"
        using discover_inv(2)[OF Cons.prems(1,2,3) True] .
      show "U - ?C = {0..<numNodes (discover node g)} - set (removedNodes (discover node g)) - (vis \<union> ?C)"
        using Cons.prems(4) by auto
      show "idx + 1 = int (length (connectedComponents (discover node g)))"
        using Cons.prems(5) by simp
      show "U - ?C \<subseteq> set ns" using Cons.prems(6) nodeC by auto
      show "set ns \<subseteq> {0..<numNodes (discover node g)}" using Cons.prems(7) by simp
    qed
    show ?thesis using IH step by (simp add: discover_def)
  next
    case False
    then have sk: "node \<in> vis \<or> node \<in> set (removedNodes g)"
      using Cons.prems(4,7) by auto
    have Uns: "U \<subseteq> set ns" using False Cons.prems(6) by auto
    have nsn: "set ns \<subseteq> {0..<numNodes g}" using Cons.prems(7) by simp
    have step: "initComponentOf node (g, vis, idx) = (g, vis, idx)"
      using initComponentOf_skip[OF sk] .
    show ?thesis using Cons.IH[OF Cons.prems(1,2,3,4,5) Uns nsn] step by simp
  qed
qed


lemma initialize_inv:
  assumes adj: "adj_inv g"
  shows "CNP_inv (initializeComponentsAndMapping g)"
    and "removedNodes (initializeComponentsAndMapping g) = removedNodes g"
    and "currentAdjList (initializeComponentsAndMapping g) = currentAdjList g"
    and "originalAdjList (initializeComponentsAndMapping g) = originalAdjList g"
    and "numNodes (initializeComponentsAndMapping g) = numNodes g"
    and "originalNodesSet (initializeComponentsAndMapping g) = originalNodesSet g"
    and "rng (initializeComponentsAndMapping g) = rng g"
proof -
  let ?g0 = "g\<lparr>nodeToComponentIndex := replicate (length (nodeToComponentIndex g)) (-1),
               connectedComponents := [], connectedPairs := 0\<rparr>"
  let ?U = "{0..<numNodes g} - set (removedNodes g)"
  have adj0: "adj_inv ?g0" using adj unfolding adj_inv_def by simp
  have GE0: "GE ?g0 = GE g" by (simp add: GE_def)
  have ci0: "comps_inv ?U ?g0"
  proof (rule comps_invI)
    fix v assume "v < numNodes ?g0" "v \<in> set (removedNodes ?g0)"
    then show "nodeToComponentIndex ?g0 ! v = -1" using adj_invD(4)[OF adj] by simp
  next
    fix v assume "v < numNodes ?g0" "v \<notin> set (removedNodes ?g0)" "v \<notin> ?U"
    then have False by simp
    then show "0 \<le> nodeToComponentIndex ?g0 ! v
       \<and> nat (nodeToComponentIndex ?g0 ! v) < length (connectedComponents ?g0)
       \<and> v \<in> set (nodes (connectedComponents ?g0 ! nat (nodeToComponentIndex ?g0 ! v)))" ..
  next
    fix i assume "i < length (connectedComponents ?g0)"
    then show "component_ok ?g0 i" by simp
  next
    show "connectedPairs ?g0 = of_nat (pairSum (connectedComponents ?g0))"
      by (simp add: pairSum_def)
  qed
  have pe0: "pending ?U ?g0"
  proof (rule pendingI)
    fix x assume "x \<in> ?U"
    then show "x < numNodes ?g0 \<and> x \<notin> set (removedNodes ?g0)" by simp
  next
    fix x assume x: "x \<in> ?U"
    then have xb: "x < numNodes g" "x \<notin> set (removedNodes g)" by simp_all
    show "(GE ?g0)\<^sup>* `` {x} \<subseteq> ?U"
      unfolding GE0 using GE_reach_bound[OF adj _ xb] by auto
  next
    fix i x assume "i < length (connectedComponents ?g0)"
    then show "x \<notin> ?U" by simp
  qed
  have "\<exists>g' vis' idx'. fold initComponentOf (originalNodesSet ?g0) (?g0, {}, 0) = (g', vis', idx')
           \<and> adj_inv g' \<and> comps_inv {} g'
           \<and> removedNodes g' = removedNodes ?g0 \<and> currentAdjList g' = currentAdjList ?g0
           \<and> originalAdjList g' = originalAdjList ?g0 \<and> numNodes g' = numNodes ?g0
           \<and> originalNodesSet g' = originalNodesSet ?g0 \<and> rng g' = rng ?g0
           \<and> nodeAge g' = nodeAge ?g0 \<and> numToRemove g' = numToRemove ?g0"
  proof (rule init_fold[OF adj0 ci0 pe0])
    show "?U = {0..<numNodes ?g0} - set (removedNodes ?g0) - {}" by simp
    show "0 = int (length (connectedComponents ?g0))" by simp
    show "?U \<subseteq> set (originalNodesSet ?g0)" using adj_invD(8)[OF adj] by auto
    show "set (originalNodesSet ?g0) \<subseteq> {0..<numNodes ?g0}" using adj_invD(8)[OF adj] by simp
  qed
  then obtain g' vis' idx' where
    f: "fold initComponentOf (originalNodesSet g) (?g0, {}, 0) = (g', vis', idx')"
    and r: "adj_inv g'" "comps_inv {} g'" "removedNodes g' = removedNodes g"
      "currentAdjList g' = currentAdjList g" "originalAdjList g' = originalAdjList g"
      "numNodes g' = numNodes g" "originalNodesSet g' = originalNodesSet g" "rng g' = rng g"
    by auto
  have eq: "initializeComponentsAndMapping g = g'"
    using f by (simp add: initializeComponentsAndMapping_def)
  show "CNP_inv (initializeComponentsAndMapping g)" using r eq by (simp add: CNP_inv_def)
  show "removedNodes (initializeComponentsAndMapping g) = removedNodes g" using r eq by simp
  show "currentAdjList (initializeComponentsAndMapping g) = currentAdjList g" using r eq by simp
  show "originalAdjList (initializeComponentsAndMapping g) = originalAdjList g" using r eq by simp
  show "numNodes (initializeComponentsAndMapping g) = numNodes g" using r eq by simp
  show "originalNodesSet (initializeComponentsAndMapping g) = originalNodesSet g" using r eq by simp
  show "rng (initializeComponentsAndMapping g) = rng g" using r eq by simp
qed

text \<open>The removed set and the elided adjacency built by \<open>updateGraphByRemovedNodes\<close>.\<close>

lemma insert_fold_set: "set (fold NodeSet_insert xs acc) = set xs \<union> set acc"
  by (induction xs arbitrary: acc) (auto simp: NodeSet_insert_def)

lemma insert_fold_distinct: "distinct acc \<Longrightarrow> distinct (fold NodeSet_insert xs acc)"
  by (induction xs arbitrary: acc) (auto simp: NodeSet_insert_def)

definition rows_ok :: "nat \<Rightarrow> NodeSet list \<Rightarrow> Node set \<Rightarrow> NodeSet list \<Rightarrow> bool" where
  "rows_ok n orig T cur \<longleftrightarrow> length cur = n \<and>
     (\<forall>u<n. distinct (cur ! u) \<and> set (cur ! u) = (if u \<in> T then {} else set (orig ! u) - T))"

lemma elideFrom_rows:
  assumes wf: "wf_adj n orig" and ok: "rows_ok n orig T cur" and s: "s < n"
  shows "rows_ok n orig (insert s T) (elideFrom orig s cur)"
proof -
  let ?c1 = "fold (\<lambda>neighbor c. c[neighbor := NodeSet_erase s (c ! neighbor)]) (adjRow orig s) cur"
  have len: "length cur = n" "length orig = n" using ok wf by (simp_all add: rows_ok_def wf_adj_def)
  have rows: "adjRow orig s = orig ! s" using len s by (simp add: adjRow_def)
  have cur: "\<And>u. u < n \<Longrightarrow> distinct (cur ! u) \<and> set (cur ! u) = (if u \<in> T then {} else set (orig ! u) - T)"
    using ok by (simp add: rows_ok_def)
  have row: "distinct ((?c1[s := []]) ! u) \<and>
       set ((?c1[s := []]) ! u) = (if u \<in> insert s T then {} else set (orig ! u) - insert s T)"
    if u: "u < n" for u
  proof (cases "u = s")
    case True
    then show ?thesis using u len by (simp add: erase_rows_length)
  next
    case False
    have nth: "(?c1[s := []]) ! u = (if u \<in> set (orig ! s) then removeAll s (cur ! u) else cur ! u)"
      using False u len rows by (simp add: erase_rows_nth)
    have notin: "s \<notin> set (cur ! u)" if "u \<notin> set (orig ! s)"
    proof
      assume "s \<in> set (cur ! u)"
      then have "s \<in> set (orig ! u)" using cur[OF u] by (auto split: if_splits)
      then have "u \<in> set (orig ! s)" using wf_adjD(2)[OF wf u] by blast
      then show False using that by simp
    qed
    have "set ((?c1[s := []]) ! u) = set (cur ! u) - {s}"
      using nth notin by auto
    moreover have "distinct ((?c1[s := []]) ! u)"
      using nth cur[OF u] by (simp add: distinct_removeAll)
    ultimately show ?thesis using cur[OF u] False by auto
  qed
  show ?thesis
    unfolding rows_ok_def elideFrom_def using row len by (simp add: erase_rows_length)
qed

lemma elide_fold_rows:
  assumes "wf_adj n orig" "rows_ok n orig T cur" "set S \<subseteq> {0..<n}"
  shows "rows_ok n orig (set S \<union> T) (fold (elideFrom orig) S cur)"
  using assms
proof (induction S arbitrary: T cur)
  case Nil
  then show ?case by simp
next
  case (Cons s S)
  have a: "rows_ok n orig (insert s T) (elideFrom orig s cur)"
    using elideFrom_rows[OF Cons.prems(1,2)] Cons.prems(3) by simp
  have b: "set S \<subseteq> {0..<n}" using Cons.prems(3) by simp
  have "rows_ok n orig (set S \<union> insert s T) (fold (elideFrom orig) S (elideFrom orig s cur))"
    by (rule Cons.IH[OF Cons.prems(1) a b])
  moreover have "set S \<union> insert s T = set (s # S) \<union> T" by auto
  ultimately show ?case by simp
qed

lemma rows_ok_orig:
  assumes "wf_adj n orig"
  shows "rows_ok n orig {} orig"
  using assms unfolding rows_ok_def wf_adj_def by simp

lemma updateGraphByRemovedNodes_inv:
  assumes st: "static_ok g" and S: "set S \<subseteq> {0..<numNodes g}"
  shows "CNP_inv (updateGraphByRemovedNodes S g)"
    and "set (removedNodes (updateGraphByRemovedNodes S g)) = set S"
    and "originalAdjList (updateGraphByRemovedNodes S g) = originalAdjList g"
    and "numNodes (updateGraphByRemovedNodes S g) = numNodes g"
    and "originalNodesSet (updateGraphByRemovedNodes S g) = originalNodesSet g"
    and "rng (updateGraphByRemovedNodes S g) = rng g"
proof -
  let ?g1 = "g\<lparr>removedNodes := fold NodeSet_insert S [],
               currentAdjList := fold (elideFrom (originalAdjList g)) S (originalAdjList g)\<rparr>"
  have wf: "wf_adj (numNodes g) (originalAdjList g)" using st by (simp add: static_ok_def)
  have rows: "rows_ok (numNodes g) (originalAdjList g) (set S) (currentAdjList ?g1)"
    using elide_fold_rows[OF wf rows_ok_orig[OF wf] S] by simp
  have adj1: "adj_inv ?g1"
  proof (rule adj_invI)
    show "static_ok ?g1" using st by (simp add: static_ok_def)
    show "distinct (removedNodes ?g1)" by (simp add: insert_fold_distinct)
    show "set (removedNodes ?g1) \<subseteq> {0..<numNodes ?g1}" using S by (simp add: insert_fold_set)
    show "length (currentAdjList ?g1) = numNodes ?g1" using rows by (simp add: rows_ok_def)
    fix v assume "v < numNodes ?g1"
    then show "distinct (currentAdjList ?g1 ! v)
           \<and> set (currentAdjList ?g1 ! v)
               = (if v \<in> set (removedNodes ?g1) then {} else set (originalAdjList ?g1 ! v) - set (removedNodes ?g1))"
      using rows by (simp add: rows_ok_def insert_fold_set)
  qed
  have eq: "updateGraphByRemovedNodes S g = initializeComponentsAndMapping ?g1"
    by (simp add: updateGraphByRemovedNodes_def)
  show "CNP_inv (updateGraphByRemovedNodes S g)" unfolding eq using initialize_inv(1)[OF adj1] .
  show "set (removedNodes (updateGraphByRemovedNodes S g)) = set S"
    unfolding eq using initialize_inv(2)[OF adj1] by (simp add: insert_fold_set)
  show "originalAdjList (updateGraphByRemovedNodes S g) = originalAdjList g"
    unfolding eq using initialize_inv(4)[OF adj1] by simp
  show "numNodes (updateGraphByRemovedNodes S g) = numNodes g"
    unfolding eq using initialize_inv(5)[OF adj1] by simp
  show "originalNodesSet (updateGraphByRemovedNodes S g) = originalNodesSet g"
    unfolding eq using initialize_inv(6)[OF adj1] by simp
  show "rng (updateGraphByRemovedNodes S g) = rng g"
    unfolding eq using initialize_inv(7)[OF adj1] by simp
qed


subsection \<open>Removal without a split\<close>

text \<open>
  Claim C4. In \<open>removeNode v\<close>, when the piece that the depth-first search finds
  from the first other member covers all remaining members of the old component of \<open>v\<close>
  (no split), the piece has \<open>old_size - 1\<close> vertices, so the source's decrement of
  \<open>connectedPairs_\<close> by the size of that piece is a decrement by \<open>old_size - 1\<close>.
  The counter is a 32-bit \<open>int\<close>: the decrement is stated on the counter itself, then
  on the value \<open>getObjectiveValue\<close> reads from it, which is the old value minus
  \<open>old_size - 1\<close> taken in the 32-bit signed range, and is exactly the old value minus
  \<open>old_size - 1\<close> whenever that difference is not below \<open>-2^31\<close>.
\<close>

theorem removeNode_no_split_delta:
  assumes idx: "nodeToComponentIndex g ! v = int ci" "ci < length (connectedComponents g)"
    and comp: "size' (connectedComponents g ! ci) = length (nodes (connectedComponents g ! ci))"
              "distinct (nodes (connectedComponents g ! ci))"
              "v \<in> set (nodes (connectedComponents g ! ci))"
              "1 < size' (connectedComponents g ! ci)"
    and start: "find (\<lambda>node. node \<noteq> v) (nodes (connectedComponents g ! ci)) = Some s"
    and nosplit: "set (nodes (dfsFindComponent (detachNode v g) s))
                    = set (nodes (connectedComponents g ! ci)) - {v}"
  shows "\<exists>g'. removeNode v g = Inr g'
           \<and> size' (dfsFindComponent (detachNode v g) s) = size' (connectedComponents g ! ci) - 1
           \<and> connectedPairs g' = connectedPairs g - of_nat (size' (dfsFindComponent (detachNode v g) s))
           \<and> connectedPairs g' = connectedPairs g - of_nat (size' (connectedComponents g ! ci) - 1)
           \<and> getObjectiveValue g'
               = signed_take_bit 31 (getObjectiveValue g - int (size' (connectedComponents g ! ci) - 1))
           \<and> (- (2 ^ 31) \<le> getObjectiveValue g - int (size' (connectedComponents g ! ci) - 1)
                \<longrightarrow> getObjectiveValue g'
                     = getObjectiveValue g - int (size' (connectedComponents g ! ci) - 1))"
proof -
  let ?c = "connectedComponents g ! ci"
  let ?g = "detachNode v g"
  let ?g1 = "?g\<lparr>connectedComponents := (connectedComponents ?g)
                 [ci := \<lparr>size' = size' (connectedComponents ?g ! ci) - 1,
                         nodes = removeAll v (nodes (connectedComponents ?g ! ci))\<rparr>]\<rparr>"
  let ?new = "dfsFindComponent ?g s"
  let ?g' = "?g1\<lparr>connectedPairs := connectedPairs ?g1 - of_nat (size' ?new)\<rparr>"
  have dfs1: "dfsFindComponent ?g1 s = ?new"
    by (rule dfsFindComponent_cong) simp_all
  have "length (nodes ?new) = card (set (nodes ?c) - {v})"
    using nosplit dfsFindComponent_distinct[of ?g s] by (metis distinct_card)
  also have "\<dots> = length (nodes ?c) - 1"
    using comp by (simp add: distinct_card)
  finally have sz: "size' ?new = size' ?c - 1"
    using comp by (simp add: dfsFindComponent_size)
  have cs: "connectedComponents ?g = connectedComponents g" "connectedPairs ?g = connectedPairs g"
    by (simp_all add: detachNode_def)
  have rm: "removeNode v g = Inr ?g'"
    using idx comp start sz dfs1 cs
    by (simp add: removeNode_def Let_def)
  have cp: "connectedPairs ?g' = connectedPairs g - of_nat (size' ?c - 1)"
    using sz cs by simp
  have ob: "getObjectiveValue ?g' = signed_take_bit 31 (getObjectiveValue g - int (size' ?c - 1))"
    unfolding getObjectiveValue_def cp by (rule sint_sub_nat_wrap)
  have ex: "getObjectiveValue ?g' = getObjectiveValue g - int (size' ?c - 1)"
    if "- (2 ^ 31) \<le> getObjectiveValue g - int (size' ?c - 1)"
    using that ob sint_sub_nat_exact[of "connectedPairs g" "size' ?c - 1"]
    by (simp add: getObjectiveValue_def)
  show ?thesis
  proof (intro exI conjI impI)
    show "removeNode v g = Inr ?g'" by (rule rm)
    show "size' ?new = size' ?c - 1" by (rule sz)
    show "connectedPairs ?g' = connectedPairs g - of_nat (size' ?new)" using cs by simp
    show "connectedPairs ?g' = connectedPairs g - of_nat (size' ?c - 1)" by (rule cp)
    show "getObjectiveValue ?g' = signed_take_bit 31 (getObjectiveValue g - int (size' ?c - 1))"
      by (rule ob)
    show "getObjectiveValue ?g' = getObjectiveValue g - int (size' ?c - 1)"
      if "- (2 ^ 31) \<le> getObjectiveValue g - int (size' ?c - 1)"
      using that by (rule ex)
  qed
qed

text \<open>The theorem at the path \<open>0 - 1 - 2\<close>, removing the end vertex 0: old size 3, the
  search from vertex 1 finds the two remaining vertices, and the objective goes from 3
  to 1.\<close>

theorem removeNode_no_split_delta_witness:
  "\<exists>g'. removeNode 0 path3 = Inr g'
       \<and> size' (dfsFindComponent (detachNode 0 path3) 1) = 2
       \<and> connectedPairs g' = connectedPairs path3 - 2
       \<and> getObjectiveValue path3 = 3
       \<and> getObjectiveValue g' = 1"
proof -
  have h1: "nodeToComponentIndex path3 ! 0 = int 0" by code_simp
  have h2: "0 < length (connectedComponents path3)" by code_simp
  have h3: "size' (connectedComponents path3 ! 0) = length (nodes (connectedComponents path3 ! 0))" by code_simp
  have h4: "distinct (nodes (connectedComponents path3 ! 0))" by code_simp
  have h5: "0 \<in> set (nodes (connectedComponents path3 ! 0))" by code_simp
  have h6: "1 < size' (connectedComponents path3 ! 0)" by code_simp
  have h7: "find (\<lambda>node. node \<noteq> 0) (nodes (connectedComponents path3 ! 0)) = Some 1" by code_simp
  have h8: "set (nodes (dfsFindComponent (detachNode 0 path3) 1))
                    = set (nodes (connectedComponents path3 ! 0)) - {0}" by code_simp
  have s3: "size' (connectedComponents path3 ! 0) = 3" by code_simp
  have o3: "getObjectiveValue path3 = 3" by code_simp
  from removeNode_no_split_delta[OF h1 h2 h3 h4 h5 h6 h7 h8]
  have "\<exists>g'. removeNode 0 path3 = Inr g'
       \<and> size' (dfsFindComponent (detachNode 0 path3) 1) = 2
       \<and> connectedPairs g' = connectedPairs path3 - 2
       \<and> getObjectiveValue g' = 1"
    unfolding s3 o3 by simp blast
  then show ?thesis using o3 by simp
qed


section \<open>Verification of the DCNP engine\<close>

subsection \<open>The breadth-first search of bfsKTree\<close>

definition ballE :: "(Node \<times> Node) set \<Rightarrow> int \<Rightarrow> Node \<Rightarrow> Node set" where
  "ballE E K v = insert v {u. \<exists>j. int j \<le> K \<and> (v, u) \<in> E ^^ j}"

definition bfs_inv :: "(Node \<times> Node) set \<Rightarrow> int \<Rightarrow> Node \<Rightarrow> Node list \<Rightarrow> Node set \<Rightarrow> (Node \<Rightarrow> int) \<Rightarrow> Node set \<Rightarrow> bool" where
  "bfs_inv E K v q vis lev D \<longleftrightarrow>
      v \<in> vis \<and> vis = D \<union> set q \<and> distinct q \<and> D \<inter> set q = {}
    \<and> (\<forall>x\<in>vis. 0 \<le> lev x \<and> (v, x) \<in> E ^^ nat (lev x) \<and> (x = v \<or> lev x \<le> K)
                  \<and> (\<forall>j. (v, x) \<in> E ^^ j \<longrightarrow> lev x \<le> int j))
    \<and> (\<forall>x\<in>D. lev x < K \<longrightarrow> E `` {x} \<subseteq> vis)
    \<and> sorted (map lev q) \<and> (\<forall>y\<in>set q. lev y \<le> lev (hd q) + 1)"

lemma bfs_invD:
  assumes "bfs_inv E K v q vis lev D"
  shows "v \<in> vis" "vis = D \<union> set q" "distinct q" "D \<inter> set q = {}"
    "\<And>x. x \<in> vis \<Longrightarrow> 0 \<le> lev x"
    "\<And>x. x \<in> vis \<Longrightarrow> (v, x) \<in> E ^^ nat (lev x)"
    "\<And>x. x \<in> vis \<Longrightarrow> x = v \<or> lev x \<le> K"
    "\<And>x j. x \<in> vis \<Longrightarrow> (v, x) \<in> E ^^ j \<Longrightarrow> lev x \<le> int j"
    "\<And>x y. x \<in> D \<Longrightarrow> lev x < K \<Longrightarrow> (x, y) \<in> E \<Longrightarrow> y \<in> vis"
    "sorted (map lev q)" "\<And>y. y \<in> set q \<Longrightarrow> lev y \<le> lev (hd q) + 1"
  using assms unfolding bfs_inv_def by blast+

lemma bfs_invI:
  assumes "v \<in> vis" "vis = D \<union> set q" "distinct q" "D \<inter> set q = {}"
    "\<And>x. x \<in> vis \<Longrightarrow> 0 \<le> lev x"
    "\<And>x. x \<in> vis \<Longrightarrow> (v, x) \<in> E ^^ nat (lev x)"
    "\<And>x. x \<in> vis \<Longrightarrow> x = v \<or> lev x \<le> K"
    "\<And>x j. x \<in> vis \<Longrightarrow> (v, x) \<in> E ^^ j \<Longrightarrow> lev x \<le> int j"
    "\<And>x y. x \<in> D \<Longrightarrow> lev x < K \<Longrightarrow> (x, y) \<in> E \<Longrightarrow> y \<in> vis"
    "sorted (map lev q)" "\<And>y. y \<in> set q \<Longrightarrow> lev y \<le> lev (hd q) + 1"
  shows "bfs_inv E K v q vis lev D"
  unfolding bfs_inv_def using assms by blast

text \<open>Every vertex within K steps is visited, or some pending vertex is nearer.\<close>

lemma bfs_frontier:
  assumes inv: "bfs_inv E K v q vis lev D"
  shows "(v, z) \<in> E ^^ j \<Longrightarrow> int j \<le> K \<Longrightarrow> z \<in> vis \<or> (\<exists>y\<in>set q. lev y < int j)"
proof (induction j arbitrary: z)
  case 0
  then show ?case using bfs_invD(1)[OF inv] by simp
next
  case (Suc j)
  from Suc.prems(1) obtain w where w: "(v, w) \<in> E ^^ j" "(w, z) \<in> E" by auto
  have jK: "int j < K" using Suc.prems(2) by simp
  from Suc.IH[OF w(1)] jK have "w \<in> vis \<or> (\<exists>y\<in>set q. lev y < int j)" by simp
  then show ?case
  proof
    assume "\<exists>y\<in>set q. lev y < int j"
    then obtain y where "y \<in> set q" "lev y < int j" by blast
    then have "y \<in> set q" "lev y < int (Suc j)" by simp_all
    then show ?thesis by blast
  next
    assume wv: "w \<in> vis"
    have lw: "lev w \<le> int j" using bfs_invD(8)[OF inv wv w(1)] .
    show ?thesis
    proof (cases "w \<in> D")
      case True
      then have "z \<in> vis" using bfs_invD(9)[OF inv True _ w(2)] lw jK by simp
      then show ?thesis ..
    next
      case False
      then have "w \<in> set q" using wv bfs_invD(2)[OF inv] by simp
      moreover have "lev w < int (Suc j)" using lw by simp
      ultimately show ?thesis by blast
    qed
  qed
qed

lemma sorted_hd_min:
  assumes "sorted (map f q)" "y \<in> set q"
  shows "f (hd q) \<le> f y"
  using assms by (cases q) auto

lemma bfsVisit_inv:
  assumes inv: "bfs_inv E K v (x # q) vis lev D"
    and lt: "lev x < K" and e: "nb \<notin> set removed \<longrightarrow> (x, nb) \<in> E"
    and st: "bfsVisit removed (lev x + 1) nb (q, vis, lev) = (q', vis', lev')"
  shows "bfs_inv E K v (x # q') vis' lev' D \<and> lev' x = lev x
         \<and> vis \<subseteq> vis' \<and> (nb \<notin> set removed \<longrightarrow> nb \<in> vis')"
proof (cases "nb \<in> set removed \<or> nb \<in> vis")
  case True
  then have "q' = q" "vis' = vis" "lev' = lev" using st by (auto simp: bfsVisit_def)
  then show ?thesis using inv True by auto
next
  case False
  then have eq: "q' = q @ [nb]" "vis' = insert nb vis" "lev' = lev(nb := lev x + 1)"
    using st by (auto simp: bfsVisit_def)
  have xnb: "(x, nb) \<in> E" using e False by simp
  have xvis: "x \<in> vis" using bfs_invD(2)[OF inv] by simp
  have nbq: "nb \<notin> set (x # q)" "nb \<notin> D" using False bfs_invD(2)[OF inv] by auto
  have nbx: "nb \<noteq> x" using nbq by auto
  have lev_old: "\<And>y. y \<in> vis \<Longrightarrow> lev' y = lev y" using False eq by auto
  have hdmin: "\<And>y. y \<in> set (x # q) \<Longrightarrow> lev x \<le> lev y"
    using sorted_hd_min[OF bfs_invD(10)[OF inv]] by simp
  have minimal: "lev x + 1 \<le> int j" if p: "(v, nb) \<in> E ^^ j" for j
  proof (cases "int j \<le> K")
    case True
    from bfs_frontier[OF inv p True] False obtain y where "y \<in> set (x # q)" "lev y < int j" by auto
    then show ?thesis using hdmin[of y] by simp
  next
    case False
    then show ?thesis using lt by simp
  qed
  have inv': "bfs_inv E K v (x # q') vis' lev' D"
  proof (rule bfs_invI)
    show "v \<in> vis'" using bfs_invD(1)[OF inv] eq by simp
    show "vis' = D \<union> set (x # q')" using bfs_invD(2)[OF inv] eq by auto
    show "distinct (x # q')" using bfs_invD(3)[OF inv] eq nbq by auto
    show "D \<inter> set (x # q') = {}" using bfs_invD(4)[OF inv] eq nbq by auto
  next
    fix y assume y: "y \<in> vis'"
    show "0 \<le> lev' y"
    proof (cases "y = nb")
      case True then show ?thesis using eq bfs_invD(5)[OF inv xvis] by simp
    next
      case False then show ?thesis using y eq bfs_invD(5)[OF inv, of y] by simp
    qed
    show "(v, y) \<in> E ^^ nat (lev' y)"
    proof (cases "y = nb")
      case True
      have "nat (lev x + 1) = Suc (nat (lev x))" using bfs_invD(5)[OF inv xvis] by simp
      moreover have "(v, nb) \<in> E ^^ Suc (nat (lev x))"
        using bfs_invD(6)[OF inv xvis] xnb by auto
      ultimately show ?thesis using True eq by simp
    next
      case False then show ?thesis using y eq bfs_invD(6)[OF inv, of y] by simp
    qed
    show "y = v \<or> lev' y \<le> K"
    proof (cases "y = nb")
      case True then show ?thesis using eq lt by simp
    next
      case False then show ?thesis using y eq bfs_invD(7)[OF inv, of y] by simp
    qed
  next
    fix y j assume y: "y \<in> vis'" and p: "(v, y) \<in> E ^^ j"
    show "lev' y \<le> int j"
    proof (cases "y = nb")
      case True then show ?thesis using eq minimal p by simp
    next
      case False then show ?thesis using y p eq bfs_invD(8)[OF inv, of y j] by simp
    qed
  next
    fix a b assume a: "a \<in> D" "lev' a < K" "(a, b) \<in> E"
    have "a \<noteq> nb" using a(1) nbq by auto
    then have "lev a < K" using a(2) eq by simp
    then have "b \<in> vis" using bfs_invD(9)[OF inv a(1) _ a(3)] by simp
    then show "b \<in> vis'" using eq by simp
  next
    have m: "map lev' (x # q) = map lev (x # q)"
      using nbq(1) eq by (intro map_cong) auto
    have srt: "sorted (map lev (x # q))" using bfs_invD(10)[OF inv] .
    have ub: "\<forall>y\<in>set (x # q). lev y \<le> lev x + 1" using bfs_invD(11)[OF inv] by simp
    have "map lev' (x # q') = map lev (x # q) @ [lev x + 1]"
      using m eq by simp
    moreover have "sorted (map lev (x # q) @ [lev x + 1])"
      using srt ub by (simp add: sorted_append)
    ultimately show "sorted (map lev' (x # q'))" by simp
  next
    fix y assume y: "y \<in> set (x # q')"
    show "lev' y \<le> lev' (hd (x # q')) + 1"
    proof (cases "y = nb")
      case True then show ?thesis using eq nbx by simp
    next
      case False
      then have "y \<in> set (x # q)" using y eq by auto
      then show ?thesis using bfs_invD(11)[OF inv, of y] False nbx eq by simp
    qed
  qed
  show ?thesis using inv' eq nbx by auto
qed

lemma bfsVisit_fold_inv:
  assumes "bfs_inv E K v (x # q) vis lev D" "lev x < K"
    "\<forall>nb \<in> set nbs. nb \<notin> set removed \<longrightarrow> (x, nb) \<in> E"
    "fold (bfsVisit removed (lev x + 1)) nbs (q, vis, lev) = (q', vis', lev')"
  shows "bfs_inv E K v (x # q') vis' lev' D \<and> lev' x = lev x
         \<and> vis \<subseteq> vis' \<and> (\<forall>nb \<in> set nbs. nb \<notin> set removed \<longrightarrow> nb \<in> vis')"
  using assms
proof (induction nbs arbitrary: q vis lev)
  case Nil
  then show ?case by simp
next
  case (Cons nb nbs)
  obtain q1 vis1 lev1 where st: "bfsVisit removed (lev x + 1) nb (q, vis, lev) = (q1, vis1, lev1)"
    by (metis prod_cases3)
  have e: "nb \<notin> set removed \<longrightarrow> (x, nb) \<in> E" using Cons.prems(3) by simp
  from bfsVisit_inv[OF Cons.prems(1,2) e st]
  have s1: "bfs_inv E K v (x # q1) vis1 lev1 D" "lev1 x = lev x" "vis \<subseteq> vis1"
    "nb \<notin> set removed \<longrightarrow> nb \<in> vis1" by auto
  have f: "fold (bfsVisit removed (lev1 x + 1)) nbs (q1, vis1, lev1) = (q', vis', lev')"
    using Cons.prems(4) st s1(2) by simp
  have lt1: "lev1 x < K" using s1(2) Cons.prems(2) by simp
  have e1: "\<forall>nb \<in> set nbs. nb \<notin> set removed \<longrightarrow> (x, nb) \<in> E" using Cons.prems(3) by simp
  from Cons.IH[OF s1(1) lt1 e1 f]
  have s2: "bfs_inv E K v (x # q') vis' lev' D" "lev' x = lev1 x" "vis1 \<subseteq> vis'"
    "\<forall>nb \<in> set nbs. nb \<notin> set removed \<longrightarrow> nb \<in> vis'" by auto
  show ?case using s1 s2 by auto
qed

lemma bfsExpand_inv:
  assumes inv: "bfs_inv E K v (x # q) vis lev D"
    and E: "\<And>nb. nb \<in> set (adjRow adj x) \<Longrightarrow> nb \<notin> set removed \<Longrightarrow> (x, nb) \<in> E"
    and Ec: "\<And>y. (x, y) \<in> E \<Longrightarrow> y \<in> set (adjRow adj x) \<and> y \<notin> set removed"
    and st: "bfsExpand adj removed K x (q, vis, lev) = (q', vis', lev')"
  shows "bfs_inv E K v q' vis' lev' (insert x D)"
proof -
  have step: "bfs_inv E K v (x # q') vis' lev' D \<and> lev' x = lev x
         \<and> (lev x < K \<longrightarrow> (\<forall>nb \<in> set (adjRow adj x). nb \<notin> set removed \<longrightarrow> nb \<in> vis'))"
  proof (cases "lev x < K")
    case True
    then have f: "fold (bfsVisit removed (lev x + 1)) (adjRow adj x) (q, vis, lev) = (q', vis', lev')"
      using st by (simp add: bfsExpand_def)
    have e: "\<forall>nb \<in> set (adjRow adj x). nb \<notin> set removed \<longrightarrow> (x, nb) \<in> E" using E by blast
    from bfsVisit_fold_inv[OF inv True e f] show ?thesis by auto
  next
    case False
    then have "q' = q" "vis' = vis" "lev' = lev" using st by (simp_all add: bfsExpand_def)
    then show ?thesis using inv False by simp
  qed
  then have i1: "bfs_inv E K v (x # q') vis' lev' D" and lx: "lev' x = lev x"
    and cl: "lev x < K \<Longrightarrow> (\<forall>nb \<in> set (adjRow adj x). nb \<notin> set removed \<longrightarrow> nb \<in> vis')"
    by auto
  show ?thesis
  proof (rule bfs_invI)
    show "v \<in> vis'" using bfs_invD(1)[OF i1] .
    show "vis' = insert x D \<union> set q'" using bfs_invD(2)[OF i1] by auto
    show "distinct q'" using bfs_invD(3)[OF i1] by simp
    show "insert x D \<inter> set q' = {}" using bfs_invD(3,4)[OF i1] by auto
    show "\<And>y. y \<in> vis' \<Longrightarrow> 0 \<le> lev' y" using bfs_invD(5)[OF i1] .
    show "\<And>y. y \<in> vis' \<Longrightarrow> (v, y) \<in> E ^^ nat (lev' y)" using bfs_invD(6)[OF i1] .
    show "\<And>y. y \<in> vis' \<Longrightarrow> y = v \<or> lev' y \<le> K" using bfs_invD(7)[OF i1] .
    show "\<And>y j. y \<in> vis' \<Longrightarrow> (v, y) \<in> E ^^ j \<Longrightarrow> lev' y \<le> int j" using bfs_invD(8)[OF i1] .
  next
    fix a b assume a: "a \<in> insert x D" "lev' a < K" "(a, b) \<in> E"
    show "b \<in> vis'"
    proof (cases "a = x")
      case True
      then have "lev x < K" using a(2) lx by simp
      moreover have "b \<in> set (adjRow adj x) \<and> b \<notin> set removed" using Ec a(3) True by simp
      ultimately show ?thesis using cl by blast
    next
      case False
      then have "a \<in> D" using a(1) by simp
      then show ?thesis using bfs_invD(9)[OF i1 _ a(2,3)] by simp
    qed
  next
    show "sorted (map lev' q')" using bfs_invD(10)[OF i1] by simp
  next
    fix y assume y: "y \<in> set q'"
    have "lev' y \<le> lev' x + 1" using bfs_invD(11)[OF i1, of y] y by simp
    moreover have "lev' x \<le> lev' (hd q')"
      using bfs_invD(10)[OF i1] y by (cases q') auto
    ultimately show "lev' y \<le> lev' (hd q') + 1" by simp
  qed
qed

lemma bfs_inv_final:
  assumes inv: "bfs_inv E K v [] vis lev D"
  shows "D = ballE E K v"
proof
  show "D \<subseteq> ballE E K v"
  proof
    fix x assume "x \<in> D"
    then have xv: "x \<in> vis" using bfs_invD(2)[OF inv] by simp
    show "x \<in> ballE E K v"
    proof (cases "x = v")
      case True then show ?thesis by (simp add: ballE_def)
    next
      case False
      then have "lev x \<le> K" using bfs_invD(7)[OF inv xv] by simp
      moreover have "(v, x) \<in> E ^^ nat (lev x)" using bfs_invD(6)[OF inv xv] .
      moreover have "0 \<le> lev x" using bfs_invD(5)[OF inv xv] .
      ultimately show ?thesis unfolding ballE_def by (auto intro!: exI[of _ "nat (lev x)"])
    qed
  qed
  show "ballE E K v \<subseteq> D"
  proof
    fix x assume "x \<in> ballE E K v"
    then consider "x = v" | j where "int j \<le> K" "(v, x) \<in> E ^^ j" by (auto simp: ballE_def)
    then have "x \<in> vis"
    proof cases
      case 1 then show ?thesis using bfs_invD(1)[OF inv] by simp
    next
      case 2 then show ?thesis using bfs_frontier[OF inv 2(2) 2(1)] by simp
    qed
    then show "x \<in> D" using bfs_invD(2)[OF inv] by simp
  qed
qed

definition markRow :: "nat \<Rightarrow> Node \<Rightarrow> Node list \<Rightarrow> nat list \<Rightarrow> nat list" where
  "markRow n v order tr = fold (\<lambda>u t. t[treeIndex n v u := 1]) order tr"

lemma bfs_loop_correct:
  assumes "bfs_inv E K v q vis lev D"
    and "\<And>x nb. x \<notin> set removed \<Longrightarrow> nb \<in> set (adjRow adj x) \<Longrightarrow> nb \<notin> set removed \<Longrightarrow> (x, nb) \<in> E"
    and "\<And>x y. (x, y) \<in> E \<Longrightarrow> y \<in> set (adjRow adj x) \<and> y \<notin> set removed"
    and "vis \<inter> set removed = {}"
  shows "\<exists>order. distinct order \<and> set order = ballE E K v - D
           \<and> bfs_loop adj removed K n v (q, vis, lev) tr c = (markRow n v order tr, c + length order)"
  using assms
proof (induction adj removed K n v "(q, vis, lev)" tr c arbitrary: q vis lev D rule: bfs_loop.induct)
  case (1 adj removed K n v bfsVisited bfsLevel tr visitedCount)
  have "D = ballE E K v" using bfs_inv_final[OF 1(1)] .
  then show ?case by (intro exI[of _ "[]"]) (simp add: markRow_def)
next
  case (2 adj removed K n v currentNode queue bfsVisited bfsLevel tr visitedCount)
  obtain q' vis' lev' where st:
    "bfsExpand adj removed K currentNode (queue, bfsVisited, bfsLevel) = (q', vis', lev')"
    by (metis prod_cases3)
  have inv: "bfs_inv E K v (currentNode # queue) bfsVisited bfsLevel D" using 2(2) .
  have cn: "currentNode \<in> bfsVisited" using bfs_invD(2)[OF inv] by simp
  then have cnr: "currentNode \<notin> set removed" using 2(5) by auto
  have inv': "bfs_inv E K v q' vis' lev' (insert currentNode D)"
    by (rule bfsExpand_inv[OF inv _ _ st]) (use 2(3,4) cnr in blast)+
  have vr: "vis' \<inter> set removed = {}"
  proof -
    have "\<And>y. y \<in> vis' \<Longrightarrow> y \<notin> set removed"
    proof -
      fix y assume y: "y \<in> vis'"
      show "y \<notin> set removed"
      proof (cases "y = v")
        case True
        then show ?thesis using bfs_invD(1)[OF inv] 2(5) by auto
      next
        case False
        have p: "(v, y) \<in> E ^^ nat (lev' y)" using bfs_invD(6)[OF inv' y] .
        have "nat (lev' y) \<noteq> 0" using False p by (cases "nat (lev' y)") auto
        then obtain m where m: "nat (lev' y) = Suc m" by (cases "nat (lev' y)") auto
        then obtain w where "(w, y) \<in> E" using p by auto
        then show ?thesis using 2(4) by blast
      qed
    qed
    then show ?thesis by auto
  qed
  from 2(1)[OF st inv' 2(3) 2(4) vr]
  obtain order where o: "distinct order" "set order = ballE E K v - insert currentNode D"
    "bfs_loop adj removed K n v (q', vis', lev') (tr[treeIndex n v currentNode := 1]) (visitedCount + 1)
       = (markRow n v order (tr[treeIndex n v currentNode := 1]), visitedCount + 1 + length order)"
    by blast
  have cb: "currentNode \<in> ballE E K v"
  proof -
    have "insert currentNode D \<subseteq> ballE E K v \<union> set q'"
    proof -
      have "set order \<union> insert currentNode D \<supseteq> insert currentNode D" by auto
      show ?thesis
      proof
        fix x assume x: "x \<in> insert currentNode D"
        then have xv: "x \<in> vis'" using bfs_invD(2)[OF inv'] by auto
        show "x \<in> ballE E K v \<union> set q'"
        proof (cases "x = v")
          case True then show ?thesis by (simp add: ballE_def)
        next
          case False
          then have "lev' x \<le> K" using bfs_invD(7)[OF inv' xv] by simp
          moreover have "(v, x) \<in> E ^^ nat (lev' x)" using bfs_invD(6)[OF inv' xv] .
          moreover have "0 \<le> lev' x" using bfs_invD(5)[OF inv' xv] .
          ultimately show ?thesis unfolding ballE_def by (auto intro!: exI[of _ "nat (lev' x)"])
        qed
      qed
    qed
    moreover have "currentNode \<notin> set q'" using bfs_invD(4)[OF inv'] by auto
    ultimately show ?thesis by auto
  qed
  have cD: "currentNode \<notin> D" using bfs_invD(4)[OF inv] by auto
  show ?case
  proof (intro exI[of _ "currentNode # order"] conjI)
    show "distinct (currentNode # order)" using o(1,2) by simp
    show "set (currentNode # order) = ballE E K v - D" using o(2) cb cD by auto
    show "bfs_loop adj removed K n v (currentNode # queue, bfsVisited, bfsLevel) tr visitedCount =
          (markRow n v (currentNode # order) tr, visitedCount + length (currentNode # order))"
      using o(3) st by (simp add: markRow_def)
  qed
qed


lemma treeIndex_inj:
  assumes "u < n" "u' < n"
  shows "treeIndex n v u = treeIndex n v' u' \<longleftrightarrow> v = v' \<and> u = u'"
proof
  assume eq: "treeIndex n v u = treeIndex n v' u'"
  have n: "0 < n" using assms by simp
  have "(v * n + u) div n = v" "(v' * n + u') div n = v'" using assms by simp_all
  then have vv: "v = v'" using eq by (metis treeIndex_def)
  then have "u = u'" using eq by (simp add: treeIndex_def)
  with vv show "v = v' \<and> u = u'" by simp
qed simp

lemma treeIndex_bound:
  assumes "v < n" "u < n"
  shows "treeIndex n v u < n * n"
proof -
  have "v * n + u < v * n + n" using assms by simp
  also have "\<dots> = Suc v * n" by simp
  also have "\<dots> \<le> n * n" using assms(1) by (intro mult_le_mono1) simp
  finally show ?thesis by (simp add: treeIndex_def)
qed

lemma clearRow_length [simp]: "length (clearRow n v tr) = length tr"
proof -
  have "length (fold (\<lambda>col t. t[treeIndex n v col := 0]) cs tr) = length tr" for cs
    by (induction cs arbitrary: tr) auto
  then show ?thesis by (simp add: clearRow_def)
qed

lemma clearRow_nth_gen:
  assumes "i < length tr"
  shows "fold (\<lambda>col t. t[treeIndex n v col := 0]) cs tr ! i
         = (if i \<in> treeIndex n v ` set cs then 0 else tr ! i)"
  using assms
proof (induction cs arbitrary: tr)
  case Nil
  then show ?case by simp
next
  case (Cons c cs)
  have "i < length (tr[treeIndex n v c := 0])" using Cons.prems by simp
  from Cons.IH[OF this] show ?case using Cons.prems by (auto simp: nth_list_update)
qed

lemma clearRow_nth:
  assumes "length tr = n * n" "v < n" "v' < n" "u' < n"
  shows "clearRow n v tr ! treeIndex n v' u' = (if v' = v then 0 else tr ! treeIndex n v' u')"
proof -
  have b: "treeIndex n v' u' < length tr" using assms treeIndex_bound by simp
  have "treeIndex n v' u' \<in> treeIndex n v ` set [0..<n] \<longleftrightarrow> v' = v"
  proof
    assume "treeIndex n v' u' \<in> treeIndex n v ` set [0..<n]"
    then obtain c where "c < n" "treeIndex n v' u' = treeIndex n v c" by auto
    then show "v' = v" using treeIndex_inj[OF assms(4), of c v' v] by simp
  next
    assume "v' = v"
    then show "treeIndex n v' u' \<in> treeIndex n v ` set [0..<n]" using assms(4) by auto
  qed
  then show ?thesis unfolding clearRow_def clearRow_nth_gen[OF b] by simp
qed

lemma markRow_length [simp]: "length (markRow n v order tr) = length tr"
  unfolding markRow_def by (induction order arbitrary: tr) auto

lemma markRow_nth_gen:
  assumes "i < length tr"
  shows "markRow n v order tr ! i = (if i \<in> treeIndex n v ` set order then 1 else tr ! i)"
  using assms unfolding markRow_def
proof (induction order arbitrary: tr)
  case Nil
  then show ?case by simp
next
  case (Cons c cs)
  have "i < length (tr[treeIndex n v c := 1])" using Cons.prems by simp
  from Cons.IH[OF this] show ?case using Cons.prems by (auto simp: nth_list_update)
qed

lemma markRow_nth:
  assumes "length tr = n * n" "v' < n" "u' < n" "set order \<subseteq> {0..<n}"
  shows "markRow n v order tr ! treeIndex n v' u'
         = (if v' = v \<and> u' \<in> set order then 1 else tr ! treeIndex n v' u')"
proof -
  have b: "treeIndex n v' u' < length tr" using assms treeIndex_bound by simp
  have "treeIndex n v' u' \<in> treeIndex n v ` set order \<longleftrightarrow> v' = v \<and> u' \<in> set order"
  proof
    assume "treeIndex n v' u' \<in> treeIndex n v ` set order"
    then obtain c where c: "c \<in> set order" "treeIndex n v' u' = treeIndex n v c" by auto
    then have "c < n" using assms(4) by auto
    then show "v' = v \<and> u' \<in> set order" using treeIndex_inj[OF assms(3), of c v' v] c by simp
  next
    assume "v' = v \<and> u' \<in> set order"
    then show "treeIndex n v' u' \<in> treeIndex n v ` set order" by auto
  qed
  then show ?thesis unfolding markRow_nth_gen[OF b] by simp
qed

section \<open>The K-hop table\<close>

definition ED :: "DCNP_Graph \<Rightarrow> (Node \<times> Node) set" where
  "ED g = Edges (currentAdjListD g) (removedNodesD g)"

definition ballD :: "DCNP_Graph \<Rightarrow> Node \<Rightarrow> Node set" where
  "ballD g v = (if v \<in> set (removedNodesD g) then {} else ballE (ED g) (kHops g) v)"

definition row_ok :: "DCNP_Graph \<Rightarrow> Node \<Rightarrow> bool" where
  "row_ok g v \<longleftrightarrow>
     (\<forall>u<numNodesD g. intree g ! treeIndex (numNodesD g) v u = (if u \<in> ballD g v then 1 else 0))
   \<and> treeSize g ! v = int (card (ballD g v) - 1)"

definition wfD :: "DCNP_Graph \<Rightarrow> bool" where
  "wfD g \<longleftrightarrow> wf_adj (numNodesD g) (currentAdjListD g)
     \<and> originalAdjListD g = currentAdjListD g
     \<and> set (removedNodesD g) \<subseteq> {0..<numNodesD g}
     \<and> length (intree g) = numNodesD g * numNodesD g
     \<and> length (treeSize g) = numNodesD g"

definition D_inv :: "DCNP_Graph \<Rightarrow> bool" where
  "D_inv g \<longleftrightarrow> wfD g \<and> (\<forall>v<numNodesD g. row_ok g v)"

lemma wfDD:
  assumes "wfD g"
  shows "wf_adj (numNodesD g) (currentAdjListD g)" "originalAdjListD g = currentAdjListD g"
    "set (removedNodesD g) \<subseteq> {0..<numNodesD g}"
    "length (intree g) = numNodesD g * numNodesD g" "length (treeSize g) = numNodesD g"
    "length (currentAdjListD g) = numNodesD g"
  using assms unfolding wfD_def wf_adj_def by blast+

lemma ED_iff:
  assumes "wfD g"
  shows "(x, y) \<in> ED g \<longleftrightarrow> x < numNodesD g \<and> x \<notin> set (removedNodesD g) \<and> y \<notin> set (removedNodesD g)
                            \<and> y \<in> set (currentAdjListD g ! x)"
  using wfDD(6)[OF assms] by (auto simp: ED_def Edges_def adjRow_def)

lemma ED_bound:
  assumes "wfD g" "(x, y) \<in> ED g"
  shows "x < numNodesD g" "y < numNodesD g"
proof -
  from assms have x: "x < numNodesD g" and y: "y \<in> set (currentAdjListD g ! x)"
    by (simp_all add: ED_iff)
  show "x < numNodesD g" by (rule x)
  show "y < numNodesD g" using wf_adjD(1)[OF wfDD(1)[OF assms(1)] x y] .
qed

lemma ED_sym:
  assumes "wfD g"
  shows "sym (ED g)"
proof (rule symI)
  fix x y assume xy: "(x, y) \<in> ED g"
  then have x: "x < numNodesD g" and y: "y \<in> set (currentAdjListD g ! x)"
    and r: "x \<notin> set (removedNodesD g)" "y \<notin> set (removedNodesD g)"
    using assms by (simp_all add: ED_iff)
  have "y < numNodesD g" "x \<in> set (currentAdjListD g ! y)"
    using wf_adjD(1,2)[OF wfDD(1)[OF assms] x y] by simp_all
  then show "(y, x) \<in> ED g" using r assms by (simp add: ED_iff)
qed

lemma relpow_bound:
  assumes "\<And>x y. (x, y) \<in> E \<Longrightarrow> y \<in> S" "v \<in> S" "(v, u) \<in> E ^^ j"
  shows "u \<in> S"
  using assms(3)
proof (induction j arbitrary: u)
  case 0 then show ?case using assms(2) by simp
next
  case (Suc j)
  then obtain w where "(w, u) \<in> E" by auto
  then show ?case using assms(1) by blast
qed

lemma ballD_bound:
  assumes "wfD g" "v < numNodesD g"
  shows "ballD g v \<subseteq> {0..<numNodesD g}"
proof
  fix u assume "u \<in> ballD g v"
  then consider "u = v" | j where "(v, u) \<in> ED g ^^ j"
    by (auto simp: ballD_def ballE_def split: if_splits)
  then show "u \<in> {0..<numNodesD g}"
  proof cases
    case 1 then show ?thesis using assms(2) by simp
  next
    case 2
    have "u \<in> {0..<numNodesD g}"
      by (rule relpow_bound[OF _ _ 2]) (use ED_bound[OF assms(1)] assms(2) in auto)
    then show ?thesis .
  qed
qed

lemma ballD_not_removed:
  assumes "u \<in> ballD g v"
  shows "u \<notin> set (removedNodesD g)" "v \<notin> set (removedNodesD g)"
proof -
  show v: "v \<notin> set (removedNodesD g)" using assms by (auto simp: ballD_def split: if_splits)
  from assms v consider "u = v" | j where "(v, u) \<in> ED g ^^ j" "u \<noteq> v"
    by (auto simp: ballD_def ballE_def)
  then show "u \<notin> set (removedNodesD g)"
  proof cases
    case 1 then show ?thesis using v by simp
  next
    case 2
    then obtain m where "j = Suc m" by (cases j) auto
    then obtain w where "(w, u) \<in> ED g" using 2 by auto
    then show ?thesis by (simp add: ED_def Edges_def)
  qed
qed

lemma relpow_sym:
  assumes "sym E" "(x, y) \<in> E ^^ j"
  shows "(y, x) \<in> E ^^ j"
  using assms(2)
proof (induction j arbitrary: y)
  case 0 then show ?case by simp
next
  case (Suc j)
  then obtain w where w: "(x, w) \<in> E ^^ j" "(w, y) \<in> E" by auto
  have "(y, w) \<in> E" using assms(1) w(2) by (simp add: symD)
  moreover have "(w, x) \<in> E ^^ j" using Suc.IH[OF w(1)] .
  ultimately show ?case by (meson relpow_Suc_I2)
qed

lemma ballD_sym:
  assumes "wfD g" "u \<in> ballD g v"
  shows "v \<in> ballD g u"
proof -
  have r: "u \<notin> set (removedNodesD g)" "v \<notin> set (removedNodesD g)"
    using ballD_not_removed[OF assms(2)] by simp_all
  from assms(2) r consider "u = v" | j where "int j \<le> kHops g" "(v, u) \<in> ED g ^^ j"
    by (auto simp: ballD_def ballE_def)
  then show ?thesis
  proof cases
    case 1 then show ?thesis using r by (simp add: ballD_def ballE_def)
  next
    case 2
    have "(u, v) \<in> ED g ^^ j" using relpow_sym[OF ED_sym[OF assms(1)] 2(2)] .
    then show ?thesis using r 2(1) by (auto simp: ballD_def ballE_def)
  qed
qed

lemma ballD_self: "v \<notin> set (removedNodesD g) \<Longrightarrow> v \<in> ballD g v"
  by (simp add: ballD_def ballE_def)


definition same_graph :: "DCNP_Graph \<Rightarrow> DCNP_Graph \<Rightarrow> bool" where
  "same_graph g' g \<longleftrightarrow> numNodesD g' = numNodesD g \<and> kHops g' = kHops g
     \<and> currentAdjListD g' = currentAdjListD g \<and> originalAdjListD g' = originalAdjListD g
     \<and> set (removedNodesD g') = set (removedNodesD g)
     \<and> length (intree g') = length (intree g) \<and> length (treeSize g') = length (treeSize g)"

definition same_row :: "DCNP_Graph \<Rightarrow> DCNP_Graph \<Rightarrow> Node \<Rightarrow> bool" where
  "same_row g' g v \<longleftrightarrow>
     (\<forall>u<numNodesD g. intree g' ! treeIndex (numNodesD g) v u = intree g ! treeIndex (numNodesD g) v u)
   \<and> treeSize g' ! v = treeSize g ! v"

lemma same_graph_refl [simp]: "same_graph g g"
  by (simp add: same_graph_def)

lemma same_graph_trans: "same_graph g'' g' \<Longrightarrow> same_graph g' g \<Longrightarrow> same_graph g'' g"
  by (simp add: same_graph_def)

lemma same_row_refl [simp]: "same_row g g v"
  by (simp add: same_row_def)

lemma same_row_trans:
  "numNodesD g' = numNodesD g \<Longrightarrow> same_row g'' g' v \<Longrightarrow> same_row g' g v \<Longrightarrow> same_row g'' g v"
  by (simp add: same_row_def)

lemma same_graph_ED: "same_graph g' g \<Longrightarrow> ED g' = ED g"
  by (simp add: same_graph_def ED_def Edges_def)

lemma same_graph_ballD: "same_graph g' g \<Longrightarrow> ballD g' v = ballD g v"
  using same_graph_ED[of g' g] by (simp add: ballD_def same_graph_def)

lemma same_graph_wfD: "same_graph g' g \<Longrightarrow> wfD g \<Longrightarrow> wfD g'"
  by (simp add: same_graph_def wfD_def)

lemma row_ok_same:
  assumes "same_graph g' g" "same_row g' g v" "row_ok g v"
  shows "row_ok g' v"
proof -
  have n: "numNodesD g' = numNodesD g" using assms(1) by (simp add: same_graph_def)
  show ?thesis
    using assms(2,3) unfolding row_ok_def same_row_def n same_graph_ballD[OF assms(1)] by simp
qed

lemma bfs_inv_init: "bfs_inv E K v [v] {v} ((\<lambda>_. 0)(v := 0)) {}"
  by (rule bfs_invI) auto

lemma bfsKTree_fields [simp]:
  "numNodesD (bfsKTree v g) = numNodesD g" "kHops (bfsKTree v g) = kHops g"
  "currentAdjListD (bfsKTree v g) = currentAdjListD g" "originalAdjListD (bfsKTree v g) = originalAdjListD g"
  "removedNodesD (bfsKTree v g) = removedNodesD g" "rngD (bfsKTree v g) = rngD g"
  "nodeAgeD (bfsKTree v g) = nodeAgeD g" "originalNodesSetD (bfsKTree v g) = originalNodesSetD g"
  "numToRemoveD (bfsKTree v g) = numToRemoveD g"
  by (simp_all add: bfsKTree_def Let_def split: prod.splits)

lemma bfsKTree_result:
  assumes wf: "wfD g" and v: "v < numNodesD g"
  shows "\<exists>order. distinct order \<and> set order = ballD g v
     \<and> intree (bfsKTree v g) = markRow (numNodesD g) v order (clearRow (numNodesD g) v (intree g))
     \<and> treeSize (bfsKTree v g) = (treeSize g)[v := int (length order - 1)]"
proof (cases "v \<in> set (removedNodesD g)")
  case True
  then show ?thesis
    by (intro exI[of _ "[]"]) (simp add: bfsKTree_def Let_def isNodeRemovedD_def ballD_def markRow_def)
next
  case False
  let ?E = "ED g"
  have e1: "\<And>x nb. x \<notin> set (removedNodesD g) \<Longrightarrow> nb \<in> set (adjRow (currentAdjListD g) x)
              \<Longrightarrow> nb \<notin> set (removedNodesD g) \<Longrightarrow> (x, nb) \<in> ?E"
    by (simp add: ED_def Edges_def)
  have e2: "\<And>x y. (x, y) \<in> ?E \<Longrightarrow> y \<in> set (adjRow (currentAdjListD g) x) \<and> y \<notin> set (removedNodesD g)"
    by (simp add: ED_def Edges_def)
  have vr: "{v} \<inter> set (removedNodesD g) = {}" using False by simp
  from bfs_loop_correct[OF bfs_inv_init e1 e2 vr, of "kHops g" "numNodesD g"
         "clearRow (numNodesD g) v (intree g)" 0]
  obtain order where o: "distinct order" "set order = ballE ?E (kHops g) v - {}"
    "bfs_loop (currentAdjListD g) (removedNodesD g) (kHops g) (numNodesD g) v
        ([v], {v}, (\<lambda>_. 0)(v := 0)) (clearRow (numNodesD g) v (intree g)) 0
      = (markRow (numNodesD g) v order (clearRow (numNodesD g) v (intree g)), 0 + length order)"
    by blast
  have so: "set order = ballD g v" using o(2) False by (simp add: ballD_def)
  have "v \<in> set order" using so False by (simp add: ballD_self)
  then have pos: "0 < length order" by (cases order) auto
  show ?thesis
    using o(1) so o(3) False pos
    by (intro exI[of _ order]) (simp add: bfsKTree_def Let_def isNodeRemovedD_def)
qed

lemma bfsKTree_row:
  assumes wf: "wfD g" and v: "v < numNodesD g"
  shows "same_graph (bfsKTree v g) g" "row_ok (bfsKTree v g) v"
    "\<And>v'. v' < numNodesD g \<Longrightarrow> v' \<noteq> v \<Longrightarrow> same_row (bfsKTree v g) g v'"
proof -
  let ?n = "numNodesD g"
  from bfsKTree_result[OF wf v] obtain order where o: "distinct order" "set order = ballD g v"
    "intree (bfsKTree v g) = markRow ?n v order (clearRow ?n v (intree g))"
    "treeSize (bfsKTree v g) = (treeSize g)[v := int (length order - 1)]"
    by blast
  have len: "length (intree g) = ?n * ?n" "length (treeSize g) = ?n" using wfDD(4,5)[OF wf] .
  have sub: "set order \<subseteq> {0..<?n}" using o(2) ballD_bound[OF wf v] by simp
  show sg: "same_graph (bfsKTree v g) g" using o(3,4) by (simp add: same_graph_def)
  have cl: "length (clearRow ?n v (intree g)) = ?n * ?n" using len by simp
  show "row_ok (bfsKTree v g) v"
    unfolding row_ok_def same_graph_ballD[OF sg]
  proof (intro conjI allI impI)
    fix u assume u: "u < numNodesD (bfsKTree v g)"
    then have u': "u < ?n" by simp
    show "intree (bfsKTree v g) ! treeIndex (numNodesD (bfsKTree v g)) v u = (if u \<in> ballD g v then 1 else 0)"
      using markRow_nth[OF cl v u' sub, of v] clearRow_nth[OF len(1) v v u'] o(2,3) by simp
  next
    have "card (ballD g v) = length order" using o(1,2) by (metis distinct_card)
    then show "treeSize (bfsKTree v g) ! v = int (card (ballD g v) - 1)"
      using o(4) len(2) v by simp
  qed
  fix v' assume v': "v' < ?n" "v' \<noteq> v"
  show "same_row (bfsKTree v g) g v'"
    unfolding same_row_def
  proof (intro conjI allI impI)
    fix u assume u: "u < ?n"
    show "intree (bfsKTree v g) ! treeIndex ?n v' u = intree g ! treeIndex ?n v' u"
      using markRow_nth[OF cl v'(1) u sub, of v] clearRow_nth[OF len(1) v v'(1) u] v'(2) o(3) by simp
  next
    show "treeSize (bfsKTree v g) ! v' = treeSize g ! v'" using o(4) v'(2) by simp
  qed
qed

text \<open>A sweep that recomputes the rows chosen by a test that reads the table.\<close>

lemma sweep_rows:
  assumes wf: "wfD g0" and sub: "set is \<subseteq> {0..<numNodesD g0}" and d: "distinct is"
    and sg: "same_graph g g0" and I: "I g"
    and pres: "\<And>g' j. same_graph g' g0 \<Longrightarrow> I g' \<Longrightarrow> j \<in> set is \<Longrightarrow> dec j \<Longrightarrow> I (bfsKTree j g')"
    and test: "\<And>g' i. same_graph g' g0 \<Longrightarrow> I g' \<Longrightarrow> i \<in> set is \<Longrightarrow> same_row g' g i \<Longrightarrow> P g' i = dec i"
  shows "same_graph (fold (\<lambda>i g. if P g i then bfsKTree i g else g) is g) g0
       \<and> I (fold (\<lambda>i g. if P g i then bfsKTree i g else g) is g)
       \<and> (\<forall>i \<in> set is. dec i \<longrightarrow> row_ok (fold (\<lambda>i g. if P g i then bfsKTree i g else g) is g) i)
       \<and> (\<forall>v < numNodesD g0. (v \<notin> set is \<or> \<not> dec v)
              \<longrightarrow> same_row (fold (\<lambda>i g. if P g i then bfsKTree i g else g) is g) g v)"
  using sub d sg I pres test
proof (induction "is" arbitrary: g)
  case Nil
  then show ?case by simp
next
  case (Cons i rest)
  let ?f = "\<lambda>i g. if P g i then bfsKTree i g else g"
  let ?g1 = "?f i g"
  have n: "numNodesD g = numNodesD g0" using Cons.prems(3) by (simp add: same_graph_def)
  have wfg: "wfD g" using same_graph_wfD[OF Cons.prems(3) wf] .
  have i: "i < numNodesD g" using Cons.prems(1) n by simp
  have Pi: "P g i = dec i" using Cons.prems(6)[OF Cons.prems(3,4)] by simp
  have sg1: "same_graph ?g1 g" using bfsKTree_row(1)[OF wfg i] by simp
  have sg10: "same_graph ?g1 g0" using same_graph_trans[OF sg1 Cons.prems(3)] .
  have n1: "numNodesD ?g1 = numNodesD g" using sg1 by (simp add: same_graph_def)
  have I1: "I ?g1" using Cons.prems(5)[OF Cons.prems(3,4), of i] Pi Cons.prems(4) by simp
  have sr1: "\<And>v. v < numNodesD g \<Longrightarrow> v \<noteq> i \<Longrightarrow> same_row ?g1 g v"
    using bfsKTree_row(3)[OF wfg i] by simp
  have pres1: "\<And>g' j. same_graph g' g0 \<Longrightarrow> I g' \<Longrightarrow> j \<in> set rest \<Longrightarrow> dec j \<Longrightarrow> I (bfsKTree j g')"
    using Cons.prems(5) by simp
  have test1: "\<And>g' j. same_graph g' g0 \<Longrightarrow> I g' \<Longrightarrow> j \<in> set rest \<Longrightarrow> same_row g' ?g1 j \<Longrightarrow> P g' j = dec j"
  proof -
    fix g' j assume a: "same_graph g' g0" "I g'" "j \<in> set rest" "same_row g' ?g1 j"
    have ji: "j \<noteq> i" "j < numNodesD g" using a(3) Cons.prems(1,2) n by auto
    have "same_row g' g j" using same_row_trans[OF n1 a(4) sr1[OF ji(2,1)]] .
    then show "P g' j = dec j" using Cons.prems(6)[OF a(1,2)] a(3) by simp
  qed
  have sub1: "set rest \<subseteq> {0..<numNodesD g0}" and d1: "distinct rest"
    using Cons.prems(1,2) by simp_all
  from Cons.IH[OF sub1 d1 sg10 I1 pres1 test1]
  have IH: "same_graph (fold ?f rest ?g1) g0" "I (fold ?f rest ?g1)"
    "\<forall>j \<in> set rest. dec j \<longrightarrow> row_ok (fold ?f rest ?g1) j"
    "\<forall>v < numNodesD g0. (v \<notin> set rest \<or> \<not> dec v) \<longrightarrow> same_row (fold ?f rest ?g1) ?g1 v"
    by auto
  have fold_eq: "fold ?f (i # rest) g = fold ?f rest ?g1" by simp
  have irest: "i \<notin> set rest" using Cons.prems(2) by simp
  have sgf1: "same_graph (fold ?f rest ?g1) ?g1"
    using IH(1) sg10 by (simp add: same_graph_def)
  show ?case
    unfolding fold_eq
  proof (intro conjI ballI allI impI)
    show "same_graph (fold ?f rest ?g1) g0" using IH(1) .
    show "I (fold ?f rest ?g1)" using IH(2) .
  next
    fix j assume j: "j \<in> set (i # rest)" "dec j"
    show "row_ok (fold ?f rest ?g1) j"
    proof (cases "j = i")
      case True
      have "row_ok ?g1 i" using bfsKTree_row(2)[OF wfg i] j True Pi by simp
      moreover have "same_row (fold ?f rest ?g1) ?g1 i" using IH(4) irest i n by simp
      ultimately show ?thesis using row_ok_same[OF sgf1] True by simp
    next
      case False
      then have "j \<in> set rest" using j by simp
      then show ?thesis using IH(3) j(2) by simp
    qed
  next
    fix v assume v: "v < numNodesD g0" "v \<notin> set (i # rest) \<or> \<not> dec v"
    show "same_row (fold ?f rest ?g1) g v"
    proof (cases "v = i")
      case True
      then have "\<not> P g i" using v(2) Pi by simp
      then have "?g1 = g" by simp
      moreover have "same_row (fold ?f rest ?g1) ?g1 i" using IH(4) irest i n by simp
      ultimately show ?thesis using True by simp
    next
      case False
      have a: "same_row ?g1 g v" using sr1 v(1) False n by simp
      have "v \<notin> set rest \<or> \<not> dec v" using v(2) by auto
      then have b: "same_row (fold ?f rest ?g1) ?g1 v" using IH(4) v(1) by simp
      show ?thesis using same_row_trans[OF n1 b a] .
    qed
  qed
qed


lemma D_invI: "wfD g \<Longrightarrow> (\<And>v. v < numNodesD g \<Longrightarrow> row_ok g v) \<Longrightarrow> D_inv g"
  by (simp add: D_inv_def)

lemma D_invD: assumes "D_inv g" shows "wfD g" "\<And>v. v < numNodesD g \<Longrightarrow> row_ok g v"
  using assms by (simp_all add: D_inv_def)

lemma buildTree_inv:
  assumes wf: "wfD g"
  shows "D_inv (buildTree g)" "same_graph (buildTree g) g"
proof -
  let ?f = "\<lambda>i g. if (\<lambda>_ _. True) g i then bfsKTree i g else g"
  have eq: "buildTree g = fold ?f [0..<numNodesD g] g" by (simp add: buildTree_def)
  have r: "same_graph (fold ?f [0..<numNodesD g] g) g
       \<and> (\<lambda>_. True) (fold ?f [0..<numNodesD g] g)
       \<and> (\<forall>i \<in> set [0..<numNodesD g]. (\<lambda>_. True) i \<longrightarrow> row_ok (fold ?f [0..<numNodesD g] g) i)
       \<and> (\<forall>v < numNodesD g. (v \<notin> set [0..<numNodesD g] \<or> \<not> (\<lambda>_. True) v)
              \<longrightarrow> same_row (fold ?f [0..<numNodesD g] g) g v)"
    by (rule sweep_rows[OF wf]) simp_all
  show sg: "same_graph (buildTree g) g" using r eq by simp
  have n: "numNodesD (buildTree g) = numNodesD g" using sg by (simp add: same_graph_def)
  show "D_inv (buildTree g)"
  proof (rule D_invI)
    show "wfD (buildTree g)" using same_graph_wfD[OF sg wf] .
    fix v assume "v < numNodesD (buildTree g)"
    then show "row_ok (buildTree g) v" using r eq n by simp
  qed
qed

lemma buildTree_fields [simp]:
  "removedNodesD (buildTree g) = removedNodesD g" "rngD (buildTree g) = rngD g"
  "nodeAgeD (buildTree g) = nodeAgeD g" "originalNodesSetD (buildTree g) = originalNodesSetD g"
  "numToRemoveD (buildTree g) = numToRemoveD g" "numNodesD (buildTree g) = numNodesD g"
  "kHops (buildTree g) = kHops g" "currentAdjListD (buildTree g) = currentAdjListD g"
  "originalAdjListD (buildTree g) = originalAdjListD g"
proof -
  have "removedNodesD (fold bfsKTree is g) = removedNodesD g \<and> rngD (fold bfsKTree is g) = rngD g
      \<and> nodeAgeD (fold bfsKTree is g) = nodeAgeD g \<and> originalNodesSetD (fold bfsKTree is g) = originalNodesSetD g
      \<and> numToRemoveD (fold bfsKTree is g) = numToRemoveD g \<and> numNodesD (fold bfsKTree is g) = numNodesD g
      \<and> kHops (fold bfsKTree is g) = kHops g \<and> currentAdjListD (fold bfsKTree is g) = currentAdjListD g
      \<and> originalAdjListD (fold bfsKTree is g) = originalAdjListD g" for "is"
    by (induction "is" arbitrary: g) simp_all
  note r = this[of "[0..<numNodesD g]"]
  show "removedNodesD (buildTree g) = removedNodesD g" "rngD (buildTree g) = rngD g"
  "nodeAgeD (buildTree g) = nodeAgeD g" "originalNodesSetD (buildTree g) = originalNodesSetD g"
  "numToRemoveD (buildTree g) = numToRemoveD g" "numNodesD (buildTree g) = numNodesD g"
  "kHops (buildTree g) = kHops g" "currentAdjListD (buildTree g) = currentAdjListD g"
  "originalAdjListD (buildTree g) = originalAdjListD g"
    using r by (simp_all add: buildTree_def)
qed

text \<open>Locality: a vertex outside the ball does not matter for the ball.\<close>

lemma relpow_mono_sub:
  fixes E :: "('a \<times> 'a) set"
  assumes "E' \<subseteq> E" "(x, y) \<in> E' ^^ j"
  shows "(x, y) \<in> E ^^ j"
  using assms(2)
proof (induction j arbitrary: y)
  case 0
  then have "x = y" by simp
  then show ?case by simp
next
  case (Suc j)
  then obtain w where w: "(x, w) \<in> E' ^^ j" "(w, y) \<in> E'" by auto
  have "(x, w) \<in> E ^^ j" using Suc.IH[OF w(1)] .
  moreover have "(w, y) \<in> E" using w(2) assms(1) by blast
  ultimately show ?case by auto
qed

lemma ballE_avoid:
  assumes sub: "E' \<subseteq> E" and keep: "\<And>x y. (x, y) \<in> E \<Longrightarrow> x \<noteq> v \<Longrightarrow> y \<noteq> v \<Longrightarrow> (x, y) \<in> E'"
    and out: "v \<notin> ballE E K i"
  shows "ballE E' K i = ballE E K i"
proof -
  have nov: "\<And>j. int j \<le> K \<Longrightarrow> (i, v) \<notin> E ^^ j" using out by (auto simp: ballE_def)
  have path: "(i, u) \<in> E ^^ j \<Longrightarrow> int j \<le> K \<Longrightarrow> (i, u) \<in> E' ^^ j" for u j
  proof (induction j arbitrary: u)
    case 0 then show ?case by simp
  next
    case (Suc j)
    from Suc.prems(1) obtain w where w: "(i, w) \<in> E ^^ j" "(w, u) \<in> E" by auto
    have jK: "int j \<le> K" using Suc.prems(2) by simp
    have "w \<noteq> v" using nov[OF jK] w(1) by auto
    moreover have "u \<noteq> v" using nov[OF Suc.prems(2)] Suc.prems(1) by auto
    ultimately have "(w, u) \<in> E'" using keep w(2) by simp
    then show ?case using Suc.IH[OF w(1) jK] by auto
  qed
  show ?thesis
  proof
    show "ballE E' K i \<subseteq> ballE E K i"
      using relpow_mono_sub[OF sub] unfolding ballE_def by blast
    show "ballE E K i \<subseteq> ballE E' K i"
      using path unfolding ballE_def by blast
  qed
qed

lemma row_ok_cong:
  assumes "numNodesD g' = numNodesD g" "intree g' = intree g" "treeSize g' = treeSize g"
    "ballD g' v = ballD g v"
  shows "row_ok g' v = row_ok g v"
  using assms by (simp add: row_ok_def)

lemma row_entry:
  assumes "row_ok g i" "u < numNodesD g"
  shows "intree g ! treeIndex (numNodesD g) i u \<noteq> 0 \<longleftrightarrow> u \<in> ballD g i"
  using assms by (simp add: row_ok_def)

subsection \<open>removeNode\<close>

lemma removeNodeD_inv:
  assumes inv: "D_inv g" and v: "v < numNodesD g"
  shows "D_inv (removeNodeD v g)"
    and "set (removedNodesD (removeNodeD v g)) = insert v (set (removedNodesD g))"
    and "numNodesD (removeNodeD v g) = numNodesD g" "kHops (removeNodeD v g) = kHops g"
    and "currentAdjListD (removeNodeD v g) = currentAdjListD g"
proof -
  let ?n = "numNodesD g"
  let ?g0 = "g\<lparr>removedNodesD := NodeSet_insert v (removedNodesD g)\<rparr>"
  let ?P = "\<lambda>g i. intree g ! treeIndex (numNodesD g) i v \<noteq> 0"
  let ?f = "\<lambda>i g. if ?P g i then bfsKTree i g else g"
  let ?dec = "\<lambda>i. v \<in> ballD g i"
  let ?g' = "fold ?f [0..<?n] ?g0"
  have wf: "wfD g" using D_invD(1)[OF inv] .
  have rs: "set (removedNodesD ?g0) = insert v (set (removedNodesD g))"
    by (auto simp: NodeSet_insert_def)
  have wf0: "wfD ?g0" using wf v rs unfolding wfD_def by simp
  have eq: "removeNodeD v g = ?g'" by (simp add: removeNodeD_def)
  have r: "same_graph ?g' ?g0 \<and> (\<lambda>_. True) ?g'
       \<and> (\<forall>i \<in> set [0..<?n]. ?dec i \<longrightarrow> row_ok ?g' i)
       \<and> (\<forall>i < numNodesD ?g0. (i \<notin> set [0..<?n] \<or> \<not> ?dec i) \<longrightarrow> same_row ?g' ?g0 i)"
  proof (rule sweep_rows[OF wf0, where I = "\<lambda>_. True"])
    fix g' i assume a: "same_graph g' ?g0" "i \<in> set [0..<?n]" "same_row g' ?g0 i"
    have n': "numNodesD g' = ?n" using a(1) by (simp add: same_graph_def)
    have i: "i < ?n" using a(2) by simp
    have "intree g' ! treeIndex ?n i v = intree g ! treeIndex ?n i v"
      using a(3) v by (simp add: same_row_def)
    then show "?P g' i = ?dec i" using row_entry[OF D_invD(2)[OF inv i] v] n' by simp
  qed simp_all
  have sg: "same_graph ?g' ?g0" using r by simp
  have n': "numNodesD ?g' = ?n" using sg by (simp add: same_graph_def)
  have E0: "ED ?g0 \<subseteq> ED g" "\<And>x y. (x, y) \<in> ED g \<Longrightarrow> x \<noteq> v \<Longrightarrow> y \<noteq> v \<Longrightarrow> (x, y) \<in> ED ?g0"
    unfolding ED_def Edges_def using rs by auto
  have inv': "D_inv ?g'"
  proof (rule D_invI)
    show "wfD ?g'" using same_graph_wfD[OF sg wf0] .
    fix i assume "i < numNodesD ?g'"
    then have i: "i < ?n" using n' by simp
    show "row_ok ?g' i"
    proof (cases "?dec i")
      case True
      then show ?thesis using r i by simp
    next
      case False
      then have sr: "same_row ?g' ?g0 i" using r i by simp
      have b: "ballD ?g0 i = ballD g i"
      proof (cases "i \<in> set (removedNodesD g)")
        case True
        then show ?thesis using rs by (simp add: ballD_def)
      next
        case ir: False
        then have "i \<in> ballD g i" by (rule ballD_self)
        then have iv: "i \<noteq> v" using False by auto
        have "v \<notin> ballE (ED g) (kHops g) i" using False ir by (simp add: ballD_def)
        from ballE_avoid[OF E0(1) E0(2) this]
        show ?thesis using ir iv rs by (simp add: ballD_def)
      qed
      have "row_ok ?g0 i = row_ok g i" by (rule row_ok_cong) (simp_all add: b)
      then have "row_ok ?g0 i" using D_invD(2)[OF inv i] by simp
      then show ?thesis using row_ok_same[OF sg sr] by simp
    qed
  qed
  show "D_inv (removeNodeD v g)" using inv' eq by simp
  show "set (removedNodesD (removeNodeD v g)) = insert v (set (removedNodesD g))"
    using sg rs eq by (simp add: same_graph_def)
  show "numNodesD (removeNodeD v g) = numNodesD g" "kHops (removeNodeD v g) = kHops g"
    "currentAdjListD (removeNodeD v g) = currentAdjListD g"
    using sg eq by (simp_all add: same_graph_def)
qed

subsection \<open>addNode\<close>

lemma addNodeD_inv:
  assumes inv: "D_inv g" and v: "v < numNodesD g"
  shows "D_inv (addNodeD v g)"
    and "set (removedNodesD (addNodeD v g)) = set (removedNodesD g) - {v}"
    and "numNodesD (addNodeD v g) = numNodesD g" "kHops (addNodeD v g) = kHops g"
    and "currentAdjListD (addNodeD v g) = currentAdjListD g"
proof -
  let ?n = "numNodesD g"
  let ?g0 = "g\<lparr>removedNodesD := NodeSet_erase v (removedNodesD g)\<rparr>"
  let ?g1 = "bfsKTree v ?g0"
  let ?P = "\<lambda>g i. intree g ! treeIndex (numNodesD g) v i \<noteq> 0"
  let ?f = "\<lambda>i g. if ?P g i then bfsKTree i g else g"
  let ?dec = "\<lambda>i. i \<in> ballD ?g0 v"
  let ?g' = "fold ?f [0..<?n] ?g1"
  have wf: "wfD g" using D_invD(1)[OF inv] .
  have rs: "set (removedNodesD ?g0) = set (removedNodesD g) - {v}"
    by (auto simp: NodeSet_erase_def)
  have wf0: "wfD ?g0" using wf v rs unfolding wfD_def by auto
  have v0: "v < numNodesD ?g0" using v by simp
  have eq: "addNodeD v g = ?g'" by (simp add: addNodeD_def)
  have sg1: "same_graph ?g1 ?g0" using bfsKTree_row(1)[OF wf0 v0] .
  have ro1: "row_ok ?g1 v" using bfsKTree_row(2)[OF wf0 v0] .
  have r: "same_graph ?g' ?g0 \<and> (\<lambda>g'. row_ok g' v) ?g'
       \<and> (\<forall>i \<in> set [0..<?n]. ?dec i \<longrightarrow> row_ok ?g' i)
       \<and> (\<forall>i < numNodesD ?g0. (i \<notin> set [0..<?n] \<or> \<not> ?dec i) \<longrightarrow> same_row ?g' ?g1 i)"
  proof (rule sweep_rows[OF wf0, where I = "\<lambda>g'. row_ok g' v"])
    show "set [0..<?n] \<subseteq> {0..<numNodesD ?g0}" by simp
    show "distinct [0..<?n]" by simp
    show "same_graph ?g1 ?g0" by (rule sg1)
    show "row_ok ?g1 v" by (rule ro1)
  next
    fix g' j assume a: "same_graph g' ?g0" "row_ok g' v" "j \<in> set [0..<?n]" "?dec j"
    have wf': "wfD g'" using same_graph_wfD[OF a(1) wf0] .
    have n': "numNodesD g' = ?n" using a(1) by (simp add: same_graph_def)
    have j: "j < numNodesD g'" using a(3) n' by simp
    show "row_ok (bfsKTree j g') v"
    proof (cases "j = v")
      case True
      then show ?thesis using bfsKTree_row(2)[OF wf' j] by simp
    next
      case False
      have "same_row (bfsKTree j g') g' v" using bfsKTree_row(3)[OF wf' j, of v] v n' False by simp
      then show ?thesis using row_ok_same[OF bfsKTree_row(1)[OF wf' j] _ a(2)] by simp
    qed
  next
    fix g' i assume a: "same_graph g' ?g0" "row_ok g' v" "i \<in> set [0..<?n]"
    have n': "numNodesD g' = ?n" using a(1) by (simp add: same_graph_def)
    have i: "i < numNodesD g'" using a(3) n' by simp
    show "?P g' i = ?dec i" using row_entry[OF a(2) i] same_graph_ballD[OF a(1)] by simp
  qed
  have sg: "same_graph ?g' ?g0" using r by simp
  have n': "numNodesD ?g' = ?n" using sg by (simp add: same_graph_def)
  have E0: "ED g \<subseteq> ED ?g0" "\<And>x y. (x, y) \<in> ED ?g0 \<Longrightarrow> x \<noteq> v \<Longrightarrow> y \<noteq> v \<Longrightarrow> (x, y) \<in> ED g"
    unfolding ED_def Edges_def using rs by auto
  have vnr: "v \<notin> set (removedNodesD ?g0)" using rs by simp
  have inv': "D_inv ?g'"
  proof (rule D_invI)
    show "wfD ?g'" using same_graph_wfD[OF sg wf0] .
    fix i assume "i < numNodesD ?g'"
    then have i: "i < ?n" using n' by simp
    show "row_ok ?g' i"
    proof (cases "?dec i")
      case True
      then show ?thesis using r i by simp
    next
      case False
      then have sr: "same_row ?g' ?g1 i" using r i by simp
      have iv: "i \<noteq> v" using False ballD_self[OF vnr] by auto
      have sr1: "same_row ?g1 ?g0 i" using bfsKTree_row(3)[OF wf0 v0, of i] i iv by simp
      have sr0: "same_row ?g' ?g0 i"
        using same_row_trans[OF _ sr sr1] by simp
      have vout: "v \<notin> ballD ?g0 i" using False ballD_sym[OF wf0, of v i] by blast
      have b: "ballD ?g0 i = ballD g i"
      proof (cases "i \<in> set (removedNodesD g)")
        case True
        then show ?thesis using rs iv by (simp add: ballD_def)
      next
        case ir: False
        then have ir0: "i \<notin> set (removedNodesD ?g0)" using rs by simp
        have "v \<notin> ballE (ED ?g0) (kHops ?g0) i" using vout ir0 by (simp add: ballD_def)
        from ballE_avoid[OF E0(1) E0(2) this]
        show ?thesis using ir ir0 by (simp add: ballD_def)
      qed
      have "row_ok ?g0 i = row_ok g i" by (rule row_ok_cong) (simp_all add: b)
      then have "row_ok ?g0 i" using D_invD(2)[OF inv i] by simp
      then show ?thesis using row_ok_same[OF sg sr0] by simp
    qed
  qed
  show "D_inv (addNodeD v g)" using inv' eq by simp
  show "set (removedNodesD (addNodeD v g)) = set (removedNodesD g) - {v}"
    using sg rs eq by (simp add: same_graph_def)
  show "numNodesD (addNodeD v g) = numNodesD g" "kHops (addNodeD v g) = kHops g"
    "currentAdjListD (addNodeD v g) = currentAdjListD g"
    using sg eq by (simp_all add: same_graph_def)
qed


lemma wf_adj_code [code]:
  "wf_adj n adj \<longleftrightarrow> length adj = n \<and>
     list_all (\<lambda>v. distinct (adj ! v) \<and> v \<notin> set (adj ! v)
                 \<and> list_all (\<lambda>u. u < n \<and> v \<in> set (adj ! u)) (adj ! v)) [0..<n]"
proof -
  have "(\<forall>v<n. P v) \<longleftrightarrow> (\<forall>v\<in>set [0..<n]. P v)" for P by auto
  then show ?thesis unfolding wf_adj_def list_all_iff by simp
qed

lemma rows_ok_wf:
  assumes wf: "wf_adj n orig" and ok: "rows_ok n orig T cur"
  shows "wf_adj n cur"
proof -
  have len: "length cur = n" using ok by (simp add: rows_ok_def)
  have row: "\<And>u. u < n \<Longrightarrow> distinct (cur ! u) \<and> set (cur ! u) = (if u \<in> T then {} else set (orig ! u) - T)"
    using ok by (simp add: rows_ok_def)
  show ?thesis
    unfolding wf_adj_def
  proof (intro conjI allI impI ballI)
    show "length cur = n" by (rule len)
  next
    fix v assume v: "v < n"
    show "distinct (cur ! v)" using row[OF v] by simp
    show "v \<notin> set (cur ! v)"
    proof
      assume "v \<in> set (cur ! v)"
      then have "v \<in> set (orig ! v)" using row[OF v] by (auto split: if_splits)
      then show False using wf_adjD(3)[OF wf v] by blast
    qed
  next
    fix v u assume v: "v < n" and u: "u \<in> set (cur ! v)"
    have vT: "v \<notin> T" and uo: "u \<in> set (orig ! v)" and uT: "u \<notin> T"
      using row[OF v] u by (auto split: if_splits)
    show "u < n" using wf_adjD(1)[OF wf v uo] .
    have "v \<in> set (orig ! u)" using wf_adjD(2)[OF wf v uo] .
    then show "v \<in> set (cur ! u)" using row[OF \<open>u < n\<close>] uT vT by simp
  qed
qed

lemma reduce_fold_snd:
  "snd (fold (reduceStep cur) S (ons, orig)) = fold (elideFrom cur) S orig"
proof (induction S arbitrary: ons orig)
  case Nil
  then show ?case by simp
next
  case (Cons s S)
  have "reduceStep cur s (ons, orig) = (NodeSet_erase s ons, elideFrom cur s orig)"
    by (simp add: reduceStep_def elideFrom_def)
  then show ?case using Cons.IH by simp
qed

lemma wfD_new:
  assumes "wf_adj (length ns) adjList"
  shows "D_inv (DCNP_Graph_new ns K adjList budget stream)"
  unfolding DCNP_Graph_new_def
  by (rule buildTree_inv(1)) (use assms in \<open>simp add: wfD_def\<close>)

lemma updateD_inv:
  assumes wf: "wfD g" and S: "set S \<subseteq> {0..<numNodesD g}"
  shows "D_inv (updateGraphByRemovedNodesD S g)"
  unfolding updateGraphByRemovedNodesD_def
  by (rule buildTree_inv(1)) (use wf S in \<open>simp add: wfD_def insert_fold_set\<close>)

lemma reducedD_inv:
  assumes wf: "wfD g" and S: "set S \<subseteq> {0..<numNodesD g}"
  shows "D_inv (getReducedGraphByRemovedNodesD S g)"
proof -
  let ?n = "numNodesD g"
  let ?cur = "currentAdjListD g"
  let ?orig = "fold (elideFrom ?cur) S ?cur"
  obtain ons orig where f: "fold (reduceStep ?cur) S (originalNodesSetD g, originalAdjListD g) = (ons, orig)"
    by (metis surj_pair)
  have "orig = snd (fold (reduceStep ?cur) S (originalNodesSetD g, originalAdjListD g))" using f by simp
  then have orig: "orig = ?orig" using reduce_fold_snd wfDD(2)[OF wf] by simp
  have wfc: "wf_adj ?n ?cur" using wfDD(1)[OF wf] .
  have "rows_ok ?n ?cur (set S \<union> {}) ?orig"
    by (rule elide_fold_rows[OF wfc rows_ok_orig[OF wfc] S])
  then have wfo: "wf_adj ?n orig" using rows_ok_wf[OF wfc] orig by simp
  have eq: "getReducedGraphByRemovedNodesD S g
      = buildTree (g\<lparr>removedNodesD := [], numToRemoveD := numToRemoveD g - int (length S),
                      originalNodesSetD := ons, originalAdjListD := orig, currentAdjListD := orig\<rparr>)"
    using f by (simp add: getReducedGraphByRemovedNodesD_def)
  show ?thesis
    unfolding eq
    by (rule buildTree_inv(1)) (use wf wfo in \<open>simp add: wfD_def\<close>)
qed

lemma ops_numNodesD [simp]:
  "numNodesD (DCNP_Graph_new ns K adjList budget stream) = length ns"
  "numNodesD (updateGraphByRemovedNodesD S g) = numNodesD g"
  "numNodesD (getReducedGraphByRemovedNodesD S g) = numNodesD g"
  by (simp_all add: DCNP_Graph_new_def updateGraphByRemovedNodesD_def
        getReducedGraphByRemovedNodesD_def split: prod.splits)

text \<open>The table is determined by the graph.\<close>

lemma table_determined:
  assumes a: "D_inv g'" "D_inv g" and sg: "same_graph g' g"
  shows "intree g' = intree g" "treeSize g' = treeSize g"
proof -
  let ?n = "numNodesD g"
  have n: "numNodesD g' = ?n" using sg by (simp add: same_graph_def)
  have len: "length (intree g') = ?n * ?n" "length (intree g) = ?n * ?n"
    "length (treeSize g') = ?n" "length (treeSize g) = ?n"
    using wfDD(4,5)[OF D_invD(1)[OF a(1)]] wfDD(4,5)[OF D_invD(1)[OF a(2)]] n by simp_all
  show "intree g' = intree g"
  proof (rule nth_equalityI)
    show "length (intree g') = length (intree g)" using len by simp
    fix i assume "i < length (intree g')"
    then have i: "i < ?n * ?n" using len by simp
    then have pos: "0 < ?n" by (cases "?n") auto
    have v: "i div ?n < ?n" using i by (simp add: less_mult_imp_div_less)
    have u: "i mod ?n < ?n" using pos by simp
    have idx: "i = treeIndex ?n (i div ?n) (i mod ?n)" by (simp add: treeIndex_def)
    have r': "row_ok g' (i div ?n)" using D_invD(2)[OF a(1)] v n by simp
    have r: "row_ok g (i div ?n)" using D_invD(2)[OF a(2)] v by simp
    have "intree g' ! treeIndex ?n (i div ?n) (i mod ?n) = intree g ! treeIndex ?n (i div ?n) (i mod ?n)"
      using r' r u unfolding row_ok_def n same_graph_ballD[OF sg] by simp
    then show "intree g' ! i = intree g ! i" using idx by simp
  qed
  show "treeSize g' = treeSize g"
  proof (rule nth_equalityI)
    show "length (treeSize g') = length (treeSize g)" using len by simp
    fix v assume "v < length (treeSize g')"
    then have v: "v < ?n" using len by simp
    have r': "row_ok g' v" using D_invD(2)[OF a(1)] v n by simp
    have r: "row_ok g v" using D_invD(2)[OF a(2)] v by simp
    show "treeSize g' ! v = treeSize g ! v"
      using r' r unfolding row_ok_def same_graph_ballD[OF sg] by simp
  qed
qed

text \<open>What the invariant says about the table.\<close>

lemma D_inv_table:
  assumes inv: "D_inv g"
  shows "\<forall>v<numNodesD g. v \<in> set (removedNodesD g) \<longrightarrow>
            (\<forall>u<numNodesD g. intree g ! treeIndex (numNodesD g) v u = 0)"
    and "\<forall>v<numNodesD g. \<forall>u<numNodesD g.
            intree g ! treeIndex (numNodesD g) v u = intree g ! treeIndex (numNodesD g) u v"
    and "\<forall>v<numNodesD g. treeSize g ! v
            = int (card {u. u < numNodesD g \<and> u \<noteq> v \<and> intree g ! treeIndex (numNodesD g) v u = 1})"
proof -
  let ?n = "numNodesD g"
  have wf: "wfD g" using D_invD(1)[OF inv] .
  have ent: "\<And>v u. v < ?n \<Longrightarrow> u < ?n \<Longrightarrow> intree g ! treeIndex ?n v u = (if u \<in> ballD g v then 1 else 0)"
    using D_invD(2)[OF inv] by (simp add: row_ok_def)
  show "\<forall>v<?n. v \<in> set (removedNodesD g) \<longrightarrow> (\<forall>u<?n. intree g ! treeIndex ?n v u = 0)"
  proof (intro allI impI)
    fix v u assume vu: "v < ?n" "v \<in> set (removedNodesD g)" "u < ?n"
    have "ballD g v = {}" using vu(2) by (simp add: ballD_def)
    then show "intree g ! treeIndex ?n v u = 0" using ent[OF vu(1,3)] by simp
  qed
  show "\<forall>v<?n. \<forall>u<?n. intree g ! treeIndex ?n v u = intree g ! treeIndex ?n u v"
  proof (intro allI impI)
    fix v u assume vu: "v < ?n" "u < ?n"
    have "u \<in> ballD g v \<longleftrightarrow> v \<in> ballD g u" using ballD_sym[OF wf] by blast
    then show "intree g ! treeIndex ?n v u = intree g ! treeIndex ?n u v"
      using ent[OF vu] ent[OF vu(2,1)] by simp
  qed
  show "\<forall>v<?n. treeSize g ! v = int (card {u. u < ?n \<and> u \<noteq> v \<and> intree g ! treeIndex ?n v u = 1})"
  proof (intro allI impI)
    fix v assume v: "v < ?n"
    have "{u. u < ?n \<and> u \<noteq> v \<and> intree g ! treeIndex ?n v u = 1} = ballD g v - {v}"
    proof (intro set_eqI iffI)
      fix u assume "u \<in> {u. u < ?n \<and> u \<noteq> v \<and> intree g ! treeIndex ?n v u = 1}"
      then have u: "u < ?n" "u \<noteq> v" "intree g ! treeIndex ?n v u = 1" by simp_all
      have "u \<in> ballD g v"
      proof (rule ccontr)
        assume "u \<notin> ballD g v"
        then have "intree g ! treeIndex ?n v u = 0" using ent[OF v u(1)] by simp
        then show False using u(3) by simp
      qed
      then show "u \<in> ballD g v - {v}" using u(2) by simp
    next
      fix u assume a: "u \<in> ballD g v - {v}"
      then have "u < ?n" using ballD_bound[OF wf v] by auto
      moreover have "intree g ! treeIndex ?n v u = 1" using ent[OF v \<open>u < ?n\<close>] a by simp
      ultimately show "u \<in> {u. u < ?n \<and> u \<noteq> v \<and> intree g ! treeIndex ?n v u = 1}"
        using a by simp
    qed
    moreover have "card (ballD g v - {v}) = card (ballD g v) - 1"
    proof (cases "v \<in> ballD g v")
      case True
      have "finite (ballD g v)" using ballD_bound[OF wf v] by (rule finite_subset) simp
      then show ?thesis using True by simp
    next
      case False
      then have "ballD g v = {}" using ballD_self[of v g] by (auto simp: ballD_def)
      then show ?thesis by simp
    qed
    moreover have "treeSize g ! v = int (card (ballD g v) - 1)"
      using D_invD(2)[OF inv v] by (simp add: row_ok_def)
    ultimately show "treeSize g ! v = int (card {u. u < ?n \<and> u \<noteq> v \<and> intree g ! treeIndex ?n v u = 1})"
      by simp
  qed
qed

inductive reachableD :: "DCNP_Graph \<Rightarrow> bool" where
  build: "wf_adj (length ns) adjList \<Longrightarrow> reachableD (DCNP_Graph_new ns K adjList budget stream)"
| set_removed_all: "reachableD g \<Longrightarrow> set S \<subseteq> {0..<numNodesD g}
      \<Longrightarrow> reachableD (updateGraphByRemovedNodesD S g)"
| add: "reachableD g \<Longrightarrow> v < numNodesD g \<Longrightarrow> reachableD (addNodeD v g)"
| remove: "reachableD g \<Longrightarrow> v < numNodesD g \<Longrightarrow> reachableD (removeNodeD v g)"
| get_reduced_by: "reachableD g \<Longrightarrow> set S \<subseteq> {0..<numNodesD g}
      \<Longrightarrow> reachableD (getReducedGraphByRemovedNodesD S g)"

lemma reachableD_inv: "reachableD g \<Longrightarrow> D_inv g"
proof (induction rule: reachableD.induct)
  case (build ns adjList K budget stream)
  then show ?case by (rule wfD_new)
next
  case (set_removed_all g S)
  then show ?case using updateD_inv[OF D_invD(1)] by simp
next
  case (add g v)
  then show ?case using addNodeD_inv(1) by simp
next
  case (remove g v)
  then show ?case using removeNodeD_inv(1) by simp
next
  case (get_reduced_by g S)
  then show ?case using reducedD_inv[OF D_invD(1)] by simp
qed


subsection \<open>The K-hop table in every reachable state\<close>

text \<open>
  Claim C3. In every state the DCNP engine reaches from a construction on a symmetric,
  loop-free adjacency list with entries below \<open>n\<close>, by any sequence of
  \<open>updateGraphByRemovedNodes\<close>, \<open>addNode\<close>, \<open>removeNode\<close> and
  \<open>getReducedGraphByRemovedNodes\<close> on vertices below \<open>n\<close>: the row of every removed
  vertex is all zero, \<open>intree\<close> is symmetric (on all vertices, so in particular on the
  non-removed ones), and \<open>treeSize[v]\<close> is the number of vertices \<open>u \<noteq> v\<close> with
  \<open>intree[v][u] = 1\<close>.
\<close>

theorem khop_table_invariant:
  assumes "reachableD g"
  shows "(\<forall>v<numNodesD g. v \<in> set (removedNodesD g) \<longrightarrow>
            (\<forall>u<numNodesD g. intree g ! treeIndex (numNodesD g) v u = 0))
       \<and> (\<forall>v<numNodesD g. \<forall>u<numNodesD g.
            intree g ! treeIndex (numNodesD g) v u = intree g ! treeIndex (numNodesD g) u v)
       \<and> (\<forall>v<numNodesD g. treeSize g ! v
            = int (card {u. u < numNodesD g \<and> u \<noteq> v \<and> intree g ! treeIndex (numNodesD g) v u = 1}))"
  using D_inv_table[OF reachableD_inv[OF assms]] by blast

text \<open>The theorem at the path \<open>0 - 1 - 2\<close> with hop limit 2 after the removal of the
  middle vertex: the state is reachable, and its table has the two rows \<open>1 0 0\<close> and
  \<open>0 0 1\<close> around the zero row of vertex 1.\<close>

theorem khop_table_invariant_witness:
  "reachableD (removeNodeD 1 path3D)
   \<and> numNodesD (removeNodeD 1 path3D) = 3
   \<and> removedNodesD (removeNodeD 1 path3D) = [1]
   \<and> intree (removeNodeD 1 path3D) = [1, 0, 0, 0, 0, 0, 0, 0, 1]
   \<and> treeSize (removeNodeD 1 path3D) = [0, 0, 0]
   \<and> intree (removeNodeD 1 path3D) ! treeIndex 3 1 0 = 0
   \<and> intree (removeNodeD 1 path3D) ! treeIndex 3 1 1 = 0
   \<and> intree (removeNodeD 1 path3D) ! treeIndex 3 1 2 = 0
   \<and> intree (removeNodeD 1 path3D) ! treeIndex 3 0 2 = intree (removeNodeD 1 path3D) ! treeIndex 3 2 0
   \<and> treeSize (removeNodeD 1 path3D) ! 0
       = int (card {u. u < 3 \<and> u \<noteq> 0 \<and> intree (removeNodeD 1 path3D) ! treeIndex 3 0 u = 1})"
proof -
  let ?g = "removeNodeD 1 path3D"
  have w: "wf_adj (length [0, 1, 2 :: nat]) [[1], [0, 2], [1]]" by code_simp
  have b: "reachableD path3D" unfolding path3D_def by (rule reachableD.build[OF w])
  have n1: "1 < numNodesD path3D" by code_simp
  have r: "reachableD ?g" by (rule reachableD.remove[OF b n1])
  have n: "numNodesD ?g = 3" by code_simp
  have rm: "removedNodesD ?g = [1]" by code_simp
  have t: "intree ?g = [1, 0, 0, 0, 0, 0, 0, 0, 1]" by code_simp
  have s: "treeSize ?g = [0, 0, 0]" by code_simp
  from khop_table_invariant[OF r]
  have zero: "\<And>v u. v < 3 \<Longrightarrow> v \<in> set (removedNodesD ?g) \<Longrightarrow> u < 3 \<Longrightarrow> intree ?g ! treeIndex 3 v u = 0"
    and sym: "\<And>v u. v < 3 \<Longrightarrow> u < 3 \<Longrightarrow> intree ?g ! treeIndex 3 v u = intree ?g ! treeIndex 3 u v"
    and sz: "\<And>v. v < 3 \<Longrightarrow> treeSize ?g ! v = int (card {u. u < 3 \<and> u \<noteq> v \<and> intree ?g ! treeIndex 3 v u = 1})"
    unfolding n by blast+
  have m: "1 \<in> set (removedNodesD ?g)" unfolding rm by simp
  have z0: "intree ?g ! treeIndex 3 1 0 = 0" by (rule zero[OF _ m]) simp_all
  have z1: "intree ?g ! treeIndex 3 1 1 = 0" by (rule zero[OF _ m]) simp_all
  have z2: "intree ?g ! treeIndex 3 1 2 = 0" by (rule zero[OF _ m]) simp_all
  have s02: "intree ?g ! treeIndex 3 0 2 = intree ?g ! treeIndex 3 2 0" by (rule sym) simp_all
  have c0: "treeSize ?g ! 0 = int (card {u. u < 3 \<and> u \<noteq> 0 \<and> intree ?g ! treeIndex 3 0 u = 1})"
    by (rule sz) simp
  show ?thesis
    by (intro conjI r n rm t s z0 z1 z2 s02 c0)
qed


subsection \<open>Betweenness\<close>

text \<open>
  Claim C7 says that \<open>betweenness()\<close> returns Brandes' centrality of the current graph,
  a function of the engine's state alone, so that two calls on an unchanged engine agree
  and a call on one engine does not change what a clone gets. The source adds every
  call's dependencies onto the \<open>static\<close> buffer without resetting it. On the path
  \<open>0 - 1 - 2\<close> the first call of the process returns \<open>[0, 2, 0]\<close>; the second call,
  on the same engine or on a clone of it, returns \<open>[0, 4, 0]\<close>.
\<close>

theorem betweenness_accumulates:
  "calculateBetweennessCentrality [] path3D = [0, 2, 0]
   \<and> calculateBetweennessCentrality (calculateBetweennessCentrality [] path3D) path3D = [0, 4, 0]
   \<and> calculateBetweennessCentrality (calculateBetweennessCentrality [] path3D) (cloneD path3D) = [0, 4, 0]"
  by code_simp

subsection \<open>findBestNodeToRemove\<close>

text \<open>
  Claim C2 says that \<open>find_best_to_remove\<close> returns \<open>INVALID\<close> whenever no single
  removal has a strictly positive improvement. On two isolated vertices (hop limit 1,
  nothing removed) every removal leaves the objective at 0, so no removal improves it,
  and the source returns vertex 0: an improvement of 0 equals the start value of
  \<open>maxImprovement\<close>, both vertices enter \<open>bestList\<close>, and the draw that follows the
  loop chooses among them. On a single isolated vertex the list has one entry, no draw
  is made, and \<open>INVALID_NODE\<close> is returned.
\<close>

theorem findBestNodeToRemove_zero_improvement:
  "map_sum id fst (findBestNodeToRemove isolated2D) = Inr 0
   \<and> calculateKhopTreeSize isolated2D = 0
   \<and> calculateKhopTreeSize (removeNodeD 0 isolated2D) = 0
   \<and> calculateKhopTreeSize (removeNodeD 1 isolated2D) = 0
   \<and> map_sum id fst (findBestNodeToRemove isolated1D) = Inr INVALID_NODE"
  by code_simp

lemma fold_max_ge: "(m::int) \<le> fold max xs m"
proof (induction xs arbitrary: m)
  case Nil show ?case by simp
next
  case (Cons x xs)
  have "m \<le> max x m" by simp
  also have "\<dots> \<le> fold max xs (max x m)" by (rule Cons.IH)
  finally show ?case by simp
qed

lemma bestImprovement_Cons:
  "bestImprovement ((i, d) # ms) m = bestImprovement ms (max d m)"
  by (simp add: bestImprovement_def)

lemma bestImprovement_ge: "m \<le> bestImprovement ms m"
  by (simp add: bestImprovement_def fold_max_ge)

lemma attaining_Cons:
  "attaining m ((i, d) # ms) = (if d = m then i # attaining m ms else attaining m ms)"
  by (simp add: attaining_def)

lemma tryRemove_scan:
  "measuredImprovements cur is g = (ms, g') \<Longrightarrow>
   fold (tryRemove cur) is (g, bn, bl, mx) =
     (g',
      (if mx < bestImprovement ms mx then int (hd (attaining (bestImprovement ms mx) ms)) else bn),
      (if mx < bestImprovement ms mx then attaining (bestImprovement ms mx) ms
       else bl @ attaining (bestImprovement ms mx) ms),
      bestImprovement ms mx)"
proof (induction "is" arbitrary: g bn bl mx ms)
  case Nil
  then show ?case by (simp add: bestImprovement_def attaining_def)
next
  case (Cons i rest)
  show ?case
  proof (cases "isNodeRemovedD g i")
    case True
    then have m: "measuredImprovements cur rest g = (ms, g')" using Cons.prems by simp
    have "fold (tryRemove cur) (i # rest) (g, bn, bl, mx) = fold (tryRemove cur) rest (g, bn, bl, mx)"
      using True by (simp add: tryRemove_def)
    then show ?thesis using Cons.IH[OF m] by simp
  next
    case False
    define g1 where "g1 = removeNodeD i g"
    define d where "d = cur - calculateKhopTreeSize g1"
    define g2 where "g2 = addNodeD i g1"
    obtain ms' where m: "measuredImprovements cur rest g2 = (ms', g')" and ms: "ms = (i, d) # ms'"
      using Cons.prems False
      by (auto simp: Let_def g1_def d_def g2_def split: prod.splits)
    let ?M = "bestImprovement ms' (max d mx)"
    have M: "bestImprovement ms mx = ?M" by (simp add: ms bestImprovement_Cons)
    have ge: "max d mx \<le> ?M" by (rule bestImprovement_ge)
    consider (gt) "mx < d" | (eq) "d = mx" | (lt) "d < mx" by linarith
    then show ?thesis
    proof cases
      case gt
      have step: "fold (tryRemove cur) (i # rest) (g, bn, bl, mx)
                = fold (tryRemove cur) rest (g2, int i, [i], d)"
        using False gt by (simp add: tryRemove_def Let_def g1_def d_def g2_def)
      have mxd: "max d mx = d" using gt by simp
      show ?thesis
        unfolding step Cons.IH[OF m] M mxd
        using gt ge mxd by (auto simp: ms attaining_Cons)
    next
      case eq
      have step: "fold (tryRemove cur) (i # rest) (g, bn, bl, mx)
                = fold (tryRemove cur) rest (g2, bn, bl @ [i], mx)"
        using False eq by (simp add: tryRemove_def Let_def g1_def d_def g2_def)
      have mxd: "max d mx = mx" using eq by simp
      show ?thesis
        unfolding step Cons.IH[OF m] M mxd
        using eq bestImprovement_ge[of mx ms'] by (auto simp: ms attaining_Cons)
    next
      case lt
      have step: "fold (tryRemove cur) (i # rest) (g, bn, bl, mx)
                = fold (tryRemove cur) rest (g2, bn, bl, mx)"
        using False lt by (simp add: tryRemove_def Let_def g1_def d_def g2_def)
      have mxd: "max d mx = mx" using lt by simp
      have ne: "d \<noteq> bestImprovement ms' mx" using lt bestImprovement_ge[of mx ms'] by simp
      show ?thesis
        unfolding step Cons.IH[OF m] M mxd
        using lt ne by (auto simp: ms attaining_Cons)
    qed
  qed
qed

text \<open>
  Claim C2, as the source has it. \<open>findBestNodeToRemove\<close> is the selection rule
  \<open>findBestNodeToRemove_rule\<close>: it returns a vertex of the largest measured
  improvement, an improvement of 0 included, one draw of the engine's generator deciding
  between several such vertices; it returns \<open>INVALID_NODE\<close> exactly when at most one
  vertex reaches the largest improvement and that improvement is not positive (no
  candidate is left, or a single candidate stands at improvement 0).
\<close>

theorem findBestNodeToRemove_rule_eq:
  "findBestNodeToRemove g = findBestNodeToRemove_rule g"
proof -
  obtain ms g1 where m: "measuredImprovements (calculateKhopTreeSize g) [0 ..< numNodesD g] g = (ms, g1)"
    by (cases "measuredImprovements (calculateKhopTreeSize g) [0 ..< numNodesD g] g") auto
  have ge: "0 \<le> bestImprovement ms 0" by (rule bestImprovement_ge)
  show ?thesis
    unfolding findBestNodeToRemove_def findBestNodeToRemove_rule_def Let_def m
      tryRemove_scan[OF m]
    using ge by (auto simp: INVALID_NODE_def split: sum.splits prod.splits)
qed


section \<open>Verification of the strategies\<close>

subsection \<open>The DLAS history rule\<close>

text \<open>
  Claim C5 says that every DLAS move follows the documented rule; in particular, when the
  slot is overwritten by a lower value, the count of maxima is decremented exactly when
  the value that was overwritten equalled the maximum. The source writes the slot first
  and compares afterwards, so it compares the new value with the maximum. In the first
  move of a search on \<open>path5\<close> (history \<open>[6, 6, 6, 6, 6]\<close>, maximum 6, count 5) the
  objective improves from 6 to 3 and the slot that held the maximum 6 is overwritten:
  the source leaves the count at 5, the documented rule gives 4.
\<close>

theorem DLAS_performMove_keeps_count:
  "getObjectiveValue path5 = 6
   \<and> observe (DLAS_performMove (CNP path5) 6 [6, 6, 6, 6, 6] 6 5 1) = Inr ([1], 3, [6, 3, 6, 6, 6], 6, 5)
   \<and> observe (DLAS_settle [0] 6 1 (CNP path5, 3, [6, 6, 6, 6, 6], 6, 5)) = Inr ([0], 3, [6, 3, 6, 6, 6], 6, 5)
   \<and> observe (DLAS_settle_documented [0] 6 1 (CNP path5, 3, [6, 6, 6, 6, 6], 6, 5)) = Inr ([0], 3, [6, 3, 6, 6, 6], 6, 4)"
  by code_simp


end
